theory Spec2Isabelle
  imports Main
begin

section \<open>Intervals (class Range of ast-btree.ts)\<close>

text \<open>
  A \<^verbatim>\<open>Range<T>\<close> object holds its two end points and the comparator it was
  constructed with.  JavaScript numbers that are used here (byte offsets, line
  and column numbers, comparator results) are integer valued and are modelled
  as \<^typ>\<open>int\<close>.  The field \<^verbatim>\<open>end\<close> is written \<open>end'\<close>.
\<close>

record 'a Range =
  start :: 'a
  end' :: 'a
  comparator :: "'a \<Rightarrow> 'a \<Rightarrow> int"

definition compareNumbers :: "int \<Rightarrow> int \<Rightarrow> int" where
  "compareNumbers a b = a - b"

definition newRange :: "'a \<Rightarrow> 'a \<Rightarrow> ('a \<Rightarrow> 'a \<Rightarrow> int) \<Rightarrow> 'a Range" where
  "newRange s e c = \<lparr>start = s, end' = e, comparator = c\<rparr>"

definition contains :: "'a Range \<Rightarrow> 'a \<Rightarrow> bool" where
  "contains this n \<longleftrightarrow>
     comparator this (start this) n \<le> 0 \<and> comparator this n (end' this) \<le> 0"

definition intersects :: "'a Range \<Rightarrow> 'a Range \<Rightarrow> bool" where
  "intersects this r \<longleftrightarrow> contains this (start r) \<or> contains this (end' r)"

definition inside :: "'a Range \<Rightarrow> 'a Range \<Rightarrow> bool" where
  "inside this r \<longleftrightarrow>
     comparator this (start this) (start r) \<ge> 0 \<and> comparator this (end' this) (end' r) \<le> 0"

definition compare :: "'a Range \<Rightarrow> 'a Range \<Rightarrow> int" where
  "compare this other =
     (let comp1 = comparator this (start this) (start other)
      in if comp1 \<noteq> 0 then comp1 else comparator this (end' this) (end' other))"

definition NumberRange :: "int \<Rightarrow> int \<Rightarrow> int Range" where
  "NumberRange s e = newRange s e compareNumbers"

text \<open>
  The data model asks for a comparator that totally preorders the end points:
  it is reflexive, its sign flips when the arguments are swapped, and
  \<open>\<le>\<close> is transitive.
\<close>

definition total_preorder :: "('a \<Rightarrow> 'a \<Rightarrow> int) \<Rightarrow> bool" where
  "total_preorder cmp \<longleftrightarrow>
     (\<forall>x. cmp x x = 0) \<and>
     (\<forall>x y. (cmp x y < 0) = (0 < cmp y x)) \<and>
     (\<forall>x y z. cmp x y \<le> 0 \<and> cmp y z \<le> 0 \<longrightarrow> cmp x z \<le> 0)"

section \<open>The ordered interval map (TreeMap of the ts-treemap package)\<close>

text \<open>
  Modelled from the spec: the ordered map \<^verbatim>\<open>TreeMap\<close> comes from the external
  package ts-treemap, whose code is not part of the repository.  Following the
  contract of the ordered interval map in the specification, a map is the list
  of its entries in ascending key order; \<open>get\<close>, \<open>set\<close> and \<open>delete\<close> address the
  entry whose key compares equal to the given key, \<open>splitLower\<close> keeps the
  entries with key \<open>\<le>\<close> the given key, \<open>splitHigher\<close> with the flag \<open>False\<close>
  those with key \<open>>\<close> it.  Both splits are new maps, so an iteration over a
  split is not disturbed by deletions from the map it was taken from.  The
  compare function \<open>cf\<close> of a map with \<^verbatim>\<open>Comparable\<close> keys is \<open>a.compare(b)\<close>.
\<close>

type_synonym ('k, 'v) TreeMap = "('k \<times> 'v) list"

fun set_tm :: "('k \<Rightarrow> 'k \<Rightarrow> int) \<Rightarrow> 'k \<Rightarrow> 'v \<Rightarrow> ('k, 'v) TreeMap \<Rightarrow> ('k, 'v) TreeMap" where
  "set_tm cf key v [] = [(key, v)]"
| "set_tm cf key v ((k, w) # m) =
     (if cf key k < 0 then (key, v) # (k, w) # m
      else if cf key k = 0 then (key, v) # m
      else (k, w) # set_tm cf key v m)"

definition get_tm :: "('k \<Rightarrow> 'k \<Rightarrow> int) \<Rightarrow> 'k \<Rightarrow> ('k, 'v) TreeMap \<Rightarrow> 'v option" where
  "get_tm cf key m = map_option snd (List.find (\<lambda>e. cf (fst e) key = 0) m)"

definition delete_tm :: "('k \<Rightarrow> 'k \<Rightarrow> int) \<Rightarrow> 'k \<Rightarrow> ('k, 'v) TreeMap \<Rightarrow> ('k, 'v) TreeMap" where
  "delete_tm cf key m = filter (\<lambda>e. cf (fst e) key \<noteq> 0) m"

definition splitLower :: "('k \<Rightarrow> 'k \<Rightarrow> int) \<Rightarrow> 'k \<Rightarrow> ('k, 'v) TreeMap \<Rightarrow> ('k, 'v) TreeMap" where
  "splitLower cf key m = filter (\<lambda>e. cf (fst e) key \<le> 0) m"

definition splitHigher :: "('k \<Rightarrow> 'k \<Rightarrow> int) \<Rightarrow> 'k \<Rightarrow> bool \<Rightarrow> ('k, 'v) TreeMap \<Rightarrow> ('k, 'v) TreeMap" where
  "splitHigher cf key incl m =
     filter (\<lambda>e. if incl then cf (fst e) key \<ge> 0 else cf (fst e) key > 0) m"

definition reverseKeys :: "('k, 'v) TreeMap \<Rightarrow> 'k list" where
  "reverseKeys m = rev (map fst m)"

definition entries :: "('k, 'v) TreeMap \<Rightarrow> ('k \<times> 'v) list" where
  "entries m = m"

definition values_tm :: "('k, 'v) TreeMap \<Rightarrow> 'v list" where
  "values_tm m = map snd m"

section \<open>The range-indexed tree (class RangeBinTree)\<close>

text \<open>
  The iterator protocol of \<^verbatim>\<open>forEachIter\<close>: the elements are visited in order
  until the iterator is exhausted or \<open>breakFn\<close> holds of the next element.  The
  visitor's side effects are made explicit as a state that is threaded through.
\<close>

fun forEachIter :: "'a list \<Rightarrow> ('a \<Rightarrow> 's \<Rightarrow> 's) \<Rightarrow> ('a \<Rightarrow> bool) \<Rightarrow> 's \<Rightarrow> 's" where
  "forEachIter [] applyFn breakFn s = s"
| "forEachIter (x # it) applyFn breakFn s =
     (if breakFn x then s else forEachIter it applyFn breakFn (applyFn x s))"

datatype ('t, 'r) RangeBinTree =
  RangeBinTree (node: 't) (range': "'r Range") (children: "('r Range \<times> ('t, 'r) RangeBinTree) list")

definition newRangeBinTree :: "'r Range \<Rightarrow> 't \<Rightarrow> ('t, 'r) RangeBinTree" where
  "newRangeBinTree r n = RangeBinTree n r []"

definition with_children ::
  "('t, 'r) RangeBinTree \<Rightarrow> ('r Range, ('t, 'r) RangeBinTree) TreeMap \<Rightarrow> ('t, 'r) RangeBinTree" where
  "with_children this m = RangeBinTree (node this) (range' this) m"

definition addChildNode :: "('t, 'r) RangeBinTree \<Rightarrow> ('t, 'r) RangeBinTree \<Rightarrow> ('t, 'r) RangeBinTree" where
  "addChildNode child this = with_children this (set_tm compare (range' child) child (children this))"

definition addChild :: "'r Range \<Rightarrow> 't \<Rightarrow> ('t, 'r) RangeBinTree \<Rightarrow> ('t, 'r) RangeBinTree" where
  "addChild r child this = addChildNode (newRangeBinTree r child) this"

definition remove :: "'r Range \<Rightarrow> ('t, 'r) RangeBinTree \<Rightarrow> ('t, 'r) RangeBinTree" where
  "remove r this = with_children this (delete_tm compare r (children this))"


text \<open>
  \<^verbatim>\<open>processIntersecting\<close>.  The visitor may change the receiver (as
  \<^verbatim>\<open>removeIntersecting\<close> does) or data of its own (the array of \<^verbatim>\<open>find\<close>), so the
  state is the pair of the receiver and the visitor's data.  In the lower scan the
  child is looked up in the map as it is at that moment; TypeScript's \<^verbatim>\<open>!\<close> is
  erased at run time, so a failed lookup hands \<^verbatim>\<open>undefined\<close> (\<open>None\<close>) to the
  visitor.
\<close>

definition breakFn :: "'r Range \<Rightarrow> 'r Range \<Rightarrow> bool" where
  "breakFn r q \<longleftrightarrow> \<not> intersects r q \<and> \<not> inside r q"

definition processIntersecting ::
  "'r Range \<Rightarrow>
   ('r Range \<times> ('t, 'r) RangeBinTree option \<Rightarrow> ('t, 'r) RangeBinTree \<times> 's \<Rightarrow> ('t, 'r) RangeBinTree \<times> 's) option \<Rightarrow>
   ('t, 'r) RangeBinTree \<times> 's \<Rightarrow> ('t, 'r) RangeBinTree \<times> 's" where
  "processIntersecting q processFn s =
     (case processFn of
        None \<Rightarrow> s
      | Some f \<Rightarrow>
          let lowerKeysIter = reverseKeys (splitLower compare q (children (fst s)));
              s1 = forEachIter lowerKeysIter
                     (\<lambda>r s'. f (r, get_tm compare r (children (fst s'))) s')
                     (\<lambda>r. breakFn r q) s;
              higherEntriesIter = entries (splitHigher compare q False (children (fst s1)))
          in forEachIter higherEntriesIter
               (\<lambda>entry s'. f (fst entry, Some (snd entry)) s')
               (\<lambda>entry. let r = fst entry in breakFn r q) s1)"

definition removeIntersecting :: "'r Range \<Rightarrow> ('t, 'r) RangeBinTree \<Rightarrow> ('t, 'r) RangeBinTree" where
  "removeIntersecting q this =
     fst (processIntersecting q (Some (\<lambda>entry (t, u). (remove (fst entry) t, u))) (this, ()))"

definition replaceIntersecting :: "'r Range \<Rightarrow> 't \<Rightarrow> ('t, 'r) RangeBinTree \<Rightarrow> ('t, 'r) RangeBinTree" where
  "replaceIntersecting q v this = addChild q v (removeIntersecting q this)"

definition find_nodes :: "'r Range \<Rightarrow> ('t, 'r) RangeBinTree \<Rightarrow> ('t, 'r) RangeBinTree option list" where
  "find_nodes q this =
     snd (processIntersecting q (Some (\<lambda>entry (t, nodes). (t, nodes @ [snd entry]))) (this, []))"

text \<open>The earlier version of \<^verbatim>\<open>find\<close> (ast-btree.ts), with the two scans written out.\<close>

definition find_inline :: "'r Range \<Rightarrow> ('t, 'r) RangeBinTree \<Rightarrow> ('t, 'r) RangeBinTree option list" where
  "find_inline q this =
     (let lowerKeysIter = reverseKeys (splitLower compare q (children this));
          nodes1 = forEachIter lowerKeysIter
                     (\<lambda>r nodes. nodes @ [get_tm compare r (children this)])
                     (\<lambda>r. breakFn r q) [];
          higherEntriesIter = entries (splitHigher compare q False (children this))
      in forEachIter higherEntriesIter
           (\<lambda>entry nodes. nodes @ [Some (snd entry)])
           (\<lambda>entry. let r = fst entry in breakFn r q) nodes1)"

section \<open>Well-formed nodes\<close>

text \<open>
  A child matches the query \<open>q\<close> when its interval intersects \<open>q\<close> or is inside
  it; the two scans stop at the first child that does not.
\<close>

definition matches :: "'r Range \<Rightarrow> 'r Range \<Rightarrow> bool" where
  "matches q r \<longleftrightarrow> intersects r q \<or> inside r q"

text \<open>
  The child map of a node that was built with \<^verbatim>\<open>addChildNode\<close>, \<^verbatim>\<open>remove\<close> and
  their combinations: all keys carry the comparator \<open>cmp\<close>, every child is
  stored under its own range, and the keys ascend strictly in the order of
  \<open>compare\<close>.
\<close>

definition wf_map :: "('r \<Rightarrow> 'r \<Rightarrow> int) \<Rightarrow> ('r Range, ('t, 'r) RangeBinTree) TreeMap \<Rightarrow> bool" where
  "wf_map cmp m \<longleftrightarrow>
     (\<forall>e \<in> set m. comparator (fst e) = cmp \<and> range' (snd e) = fst e) \<and>
     sorted_wrt (\<lambda>a b. compare a b < 0) (map fst m)"

text \<open>
  The sibling invariant of the data model: for two siblings \<open>A\<close> and \<open>B\<close>,
  \<open>A.compare(B) < 0\<close> iff \<open>A\<close> lies entirely to the left of \<open>B\<close>.  Taken at
  \<open>A = B\<close> it says that no sibling has its end before its start.
\<close>

definition siblings_ok :: "('r Range, 'v) TreeMap \<Rightarrow> bool" where
  "siblings_ok m \<longleftrightarrow>
     (\<forall>a \<in> set m. \<forall>b \<in> set m.
        (compare (fst a) (fst b) < 0) = (comparator (fst a) (end' (fst a)) (start (fst b)) < 0))"

definition well_formed :: "'r Range \<Rightarrow> bool" where
  "well_formed r \<longleftrightarrow> comparator r (start r) (end' r) \<le> 0"

text \<open>
  The entries the two scans visit: the matching entries met going down from the
  greatest key \<open>\<le> q\<close>, and those met going up from the least key \<open>> q\<close>.
\<close>

definition lower_run :: "'r Range \<Rightarrow> ('r Range, 'v) TreeMap \<Rightarrow> ('r Range \<times> 'v) list" where
  "lower_run q m = takeWhile (\<lambda>e. matches q (fst e)) (rev (splitLower compare q m))"

definition higher_run :: "'r Range \<Rightarrow> ('r Range, 'v) TreeMap \<Rightarrow> ('r Range \<times> 'v) list" where
  "higher_run q m = takeWhile (\<lambda>e. matches q (fst e)) (splitHigher compare q False m)"

text \<open>What \<^verbatim>\<open>removeIntersecting\<close> keeps on either side of the query key.\<close>

definition kept_lower :: "'r Range \<Rightarrow> ('r Range, 'v) TreeMap \<Rightarrow> ('r Range \<times> 'v) list" where
  "kept_lower q m = rev (dropWhile (\<lambda>e. matches q (fst e)) (rev (splitLower compare q m)))"

definition kept_higher :: "'r Range \<Rightarrow> ('r Range, 'v) TreeMap \<Rightarrow> ('r Range \<times> 'v) list" where
  "kept_higher q m = dropWhile (\<lambda>e. matches q (fst e)) (splitHigher compare q False m)"

text \<open>Three siblings \<open>[0,5]\<close>, \<open>[6,9]\<close>, \<open>[10,15]\<close> under one root.\<close>

definition siblings_tree :: "(string, int) RangeBinTree" where
  "siblings_tree =
     addChild (NumberRange 10 15) ''c''
       (addChild (NumberRange 6 9) ''b''
         (addChild (NumberRange 0 5) ''a'' (newRangeBinTree (NumberRange 0 15) ''root'')))"

text \<open>Two overlapping siblings \<open>[0,10]\<close> and \<open>[2,3]\<close> under one root.\<close>

definition overlapping_tree :: "(string, int) RangeBinTree" where
  "overlapping_tree =
     addChild (NumberRange 2 3) ''b''
       (addChild (NumberRange 0 10) ''a'' (newRangeBinTree (NumberRange 0 15) ''root''))"

text \<open>The children of a node, each as start, end and value, in map order.\<close>

definition summary :: "('t, 'r) RangeBinTree \<Rightarrow> ('r \<times> 'r \<times> 't) list" where
  "summary t = map (\<lambda>e. (start (fst e), end' (fst e), node (snd e))) (children t)"

section \<open>The diagnostics batch update (extension.ts)\<close>

text \<open>
  Positions of the editor are pairs of a line and a character, both counted
  from zero.  \<^verbatim>\<open>VSCodeRange\<close> is a \<^verbatim>\<open>Range\<close> of positions whose comparator orders
  by line, then by character.
\<close>

record Position =
  line :: int
  character :: int

definition newPosition :: "int \<Rightarrow> int \<Rightarrow> Position" where
  "newPosition l c = \<lparr>line = l, character = c\<rparr>"

definition positionComparator :: "Position \<Rightarrow> Position \<Rightarrow> int" where
  "positionComparator p1 p2 =
     (if line p1 \<noteq> line p2 then line p1 - line p2 else character p1 - character p2)"

definition VSCodeRange :: "Position \<Rightarrow> Position \<Rightarrow> Position Range" where
  "VSCodeRange s e = newRange s e positionComparator"

text \<open>
  A diagnostic of the editor, by the three constructor arguments that
  \<^verbatim>\<open>checkCode\<close> passes; a diagnostic built without a severity is an error.
  \<^verbatim>\<open>AnalysisReport\<close> is one finding of the analysis: \<^verbatim>\<open>location.line\<close> counts
  from one, \<^verbatim>\<open>location.snippet\<close> is the text the finding points at.
\<close>

datatype DiagnosticSeverity = Error | Warning | Information | Hint

record Diagnostic =
  diag_range :: "Position \<times> Position"
  message :: string
  severity :: DiagnosticSeverity

definition newDiagnostic :: "Position \<times> Position \<Rightarrow> string \<Rightarrow> DiagnosticSeverity \<Rightarrow> Diagnostic" where
  "newDiagnostic r m s = \<lparr>diag_range = r, message = m, severity = s\<rparr>"

record AnalysisReport =
  issue :: string
  description :: string
  location_line :: int
  location_snippet :: string


text \<open>
  \<^verbatim>\<open>String.prototype.indexOf\<close>: the least offset at which the snippet occurs,
  \<open>-1\<close> when it does not occur.
\<close>

fun indexOf :: "string \<Rightarrow> string \<Rightarrow> int" where
  "indexOf [] snippet = (if snippet = [] then 0 else - 1)"
| "indexOf (c # cs) snippet =
     (if take (length snippet) (c # cs) = snippet then 0
      else (let i = indexOf cs snippet in if i < 0 then - 1 else i + 1))"

text \<open>
  The diagnostics tree of a document.  When the document has none yet, the
  callback of \<^verbatim>\<open>checkCode\<close> first stores a stub root spanning the whole
  document.
\<close>

type_synonym DiagnosticsTree = "(Diagnostic, Position) RangeBinTree"



text \<open>
  The two exceptions of the editor's interface that the callback can raise:
  the constructor of a position rejects a negative line as an illegal argument
  (\<^verbatim>\<open>line must be non-negative\<close>), and the constructor of a diagnostic
  rejects an empty message with a \<^verbatim>\<open>TypeError\<close> (\<^verbatim>\<open>message must be set\<close>).
  \<^verbatim>\<open>newDiagnostic\<close> above is the constructor at a message that is not empty.
\<close>

datatype api_error = IllegalArgument | MessageNotSet

text \<open>
  The callback maps every finding to a range or to \<^verbatim>\<open>undefined\<close>.  For the
  text of the reported line it builds the range from column 0 to the last
  column of line \<^verbatim>\<open>location.line - 1\<close>, which raises the illegal-argument
  error when that line is negative; otherwise the text is fetched
  (\<open>getLineText\<close>), the snippet is searched in it, and a negative offset gives
  no range.  \<^verbatim>\<open>results.map\<close> goes through the findings in order, and the first
  exception ends it.
\<close>

definition resolveRange ::
  "(int \<Rightarrow> string option) \<Rightarrow> AnalysisReport \<Rightarrow> api_error + Position Range option" where
  "resolveRange getLineText result =
     (let ln = location_line result - 1
      in if ln < 0 then Inl IllegalArgument
         else case getLineText ln of
           None \<Rightarrow> Inr None
         | Some lineText \<Rightarrow>
             (let offset = indexOf lineText (location_snippet result)
              in if offset < 0 then Inr None
                 else Inr (Some (VSCodeRange (newPosition ln offset)
                        (newPosition ln (offset + int (length (location_snippet result))))))))"

fun resolveAll ::
  "(int \<Rightarrow> string option) \<Rightarrow> AnalysisReport list \<Rightarrow> api_error + Position Range option list" where
  "resolveAll getLineText [] = Inr []"
| "resolveAll getLineText (result # results) =
     (case resolveRange getLineText result of
        Inl e \<Rightarrow> Inl e
      | Inr r \<Rightarrow>
          (case resolveAll getLineText results of
             Inl e \<Rightarrow> Inl e
           | Inr rs \<Rightarrow> Inr (r # rs)))"





text \<open>
  The range of a finding when building it raises nothing, and no range
  otherwise.
\<close>

definition resolvedRange :: "(int \<Rightarrow> string option) \<Rightarrow> AnalysisReport \<Rightarrow> Position Range option" where
  "resolvedRange getLineText result =
     (case resolveRange getLineText result of Inl e \<Rightarrow> None | Inr r \<Rightarrow> r)"

text \<open>
  The child that the second loop stores for a finding resolved to \<open>r\<close>, and
  the condition that every range of a list of resolved findings is ordered by
  \<^verbatim>\<open>positionComparator\<close>.
\<close>

definition finding_child :: "Position Range \<Rightarrow> AnalysisReport \<Rightarrow> DiagnosticsTree" where
  "finding_child r result =
     newRangeBinTree r (newDiagnostic (start r, end' r) (description result) Warning)"



definition report :: "int \<Rightarrow> string \<Rightarrow> string \<Rightarrow> AnalysisReport" where
  "report ln snip descr = \<lparr>issue = ''issue'', description = descr, location_line = ln, location_snippet = snip\<rparr>"

definition diag_summary :: "DiagnosticsTree \<Rightarrow> ((int \<times> int) \<times> (int \<times> int) \<times> string) list" where
  "diag_summary t =
     map (\<lambda>e. ((line (start (fst e)), character (start (fst e))),
                (line (end' (fst e)), character (end' (fst e))), message (node (snd e))))
       (children t)"




section \<open>Enclosing-block lookup (extension.ts)\<close>














section \<open>Properties of intervals\<close>

lemma total_preorder_compareNumbers: "total_preorder compareNumbers"
  by (auto simp: total_preorder_def compareNumbers_def)

lemma NumberRange_simps [simp]:
  "start (NumberRange s e) = s" "end' (NumberRange s e) = e"
  "comparator (NumberRange s e) = compareNumbers"
  by (simp_all add: NumberRange_def newRange_def)

text \<open>
  C6: \<open>intersects\<close> is not symmetric.  There are two intervals over one
  comparator on which the two directions disagree; and whenever \<open>B\<close> strictly
  contains the interval \<open>A\<close> (\<open>B.start < A.start \<le> A.end < B.end\<close> under a
  shared total-preorder comparator), no end point of \<open>B\<close> lies in \<open>A\<close>,
  \<open>A.intersects(B)\<close> is false and \<open>B.intersects(A)\<close> is true.
\<close>

theorem intersects_not_symmetric:
  "(\<exists>A B :: int Range. comparator A = comparator B \<and> intersects A B \<noteq> intersects B A) \<and>
   (\<forall>(A :: 'a Range) B cmp.
      total_preorder cmp \<and> comparator A = cmp \<and> comparator B = cmp \<and>
      cmp (start B) (start A) < 0 \<and> cmp (start A) (end' A) \<le> 0 \<and> cmp (end' A) (end' B) < 0
      \<longrightarrow> \<not> contains A (start B) \<and> \<not> contains A (end' B) \<and>
          \<not> intersects A B \<and> intersects B A)"
proof (intro conjI allI impI)
  have "comparator (NumberRange 3 4) = comparator (NumberRange 0 10)"
    by simp
  moreover have "intersects (NumberRange 3 4) (NumberRange 0 10)
      \<noteq> intersects (NumberRange 0 10) (NumberRange 3 4)"
    by (simp add: intersects_def contains_def compareNumbers_def)
  ultimately show "\<exists>A B :: int Range. comparator A = comparator B \<and> intersects A B \<noteq> intersects B A"
    by blast
next
  fix A B :: "'a Range" and cmp
  assume h: "total_preorder cmp \<and> comparator A = cmp \<and> comparator B = cmp \<and>
      cmp (start B) (start A) < 0 \<and> cmp (start A) (end' A) \<le> 0 \<and> cmp (end' A) (end' B) < 0"
  then have flip: "\<And>x y. (cmp x y < 0) = (0 < cmp y x)"
    and trans: "\<And>x y z. cmp x y \<le> 0 \<Longrightarrow> cmp y z \<le> 0 \<Longrightarrow> cmp x z \<le> 0"
    unfolding total_preorder_def by blast+
  from h have cA: "comparator A = cmp" and cB: "comparator B = cmp"
    and sB: "cmp (start B) (start A) < 0" and wf: "cmp (start A) (end' A) \<le> 0"
    and eB: "cmp (end' A) (end' B) < 0"
    by simp_all
  have n1: "\<not> cmp (start A) (start B) \<le> 0"
    using flip [of "start B" "start A"] sB by simp
  have n2: "\<not> cmp (end' B) (end' A) \<le> 0"
    using flip [of "end' A" "end' B"] eB by simp
  show c1: "\<not> contains A (start B)"
    using n1 by (simp add: contains_def cA)
  show c2: "\<not> contains A (end' B)"
    using n2 by (simp add: contains_def cA)
  show "\<not> intersects A B"
    using c1 c2 by (simp add: intersects_def)
  have "cmp (start A) (end' B) \<le> 0"
    using trans [OF wf] eB by simp
  then have "contains B (start A)"
    using sB by (simp add: contains_def cB)
  then show "intersects B A"
    by (simp add: intersects_def)
qed

theorem intersects_not_symmetric_witness:
  "total_preorder compareNumbers \<and>
   compareNumbers 0 3 < 0 \<and> compareNumbers 3 4 \<le> 0 \<and> compareNumbers 4 10 < 0 \<and>
   \<not> intersects (NumberRange 3 4) (NumberRange 0 10) \<and>
   intersects (NumberRange 0 10) (NumberRange 3 4)"
proof -
  have pre: "total_preorder compareNumbers \<and>
      comparator (NumberRange 3 4) = compareNumbers \<and>
      comparator (NumberRange 0 10) = compareNumbers \<and>
      compareNumbers (start (NumberRange 0 10)) (start (NumberRange 3 4)) < 0 \<and>
      compareNumbers (start (NumberRange 3 4)) (end' (NumberRange 3 4)) \<le> 0 \<and>
      compareNumbers (end' (NumberRange 3 4)) (end' (NumberRange 0 10)) < 0"
    by (simp add: total_preorder_compareNumbers) (simp add: compareNumbers_def)
  from intersects_not_symmetric have
    "\<forall>(A :: int Range) B cmp.
      total_preorder cmp \<and> comparator A = cmp \<and> comparator B = cmp \<and>
      cmp (start B) (start A) < 0 \<and> cmp (start A) (end' A) \<le> 0 \<and> cmp (end' A) (end' B) < 0
      \<longrightarrow> \<not> contains A (start B) \<and> \<not> contains A (end' B) \<and>
          \<not> intersects A B \<and> intersects B A"
    by (rule conjunct2)
  then have "\<not> intersects (NumberRange 3 4) (NumberRange 0 10) \<and>
      intersects (NumberRange 0 10) (NumberRange 3 4)"
    using pre by blast
  then show ?thesis
    using pre by simp
qed

text \<open>
  C7: for an interval \<open>A\<close> constructed with a comparator \<open>cmp\<close> such that
  \<open>cmp(x, x) = 0\<close> for all \<open>x\<close>, \<open>A.inside(A)\<close> is true and \<open>A.compare(A)\<close>
  is \<open>0\<close>.
\<close>

theorem inside_compare_reflexive:
  assumes "\<forall>x. cmp x x = 0"
  shows "inside (newRange s e cmp) (newRange s e cmp) \<and>
         compare (newRange s e cmp) (newRange s e cmp) = 0"
  using assms by (simp add: inside_def compare_def newRange_def)

theorem inside_compare_reflexive_witness:
  "(\<forall>x. compareNumbers x x = 0) \<and>
   inside (NumberRange 6 9) (NumberRange 6 9) \<and>
   compare (NumberRange 6 9) (NumberRange 6 9) = 0"
proof -
  have r: "\<forall>x. compareNumbers x x = 0"
    by (simp add: compareNumbers_def)
  from inside_compare_reflexive [of compareNumbers 6 9] r show ?thesis
    by (simp add: NumberRange_def)
qed

section \<open>Comparators and well-formed maps\<close>

lemma forEachIter_fold:
  "forEachIter it applyFn brk s = fold applyFn (takeWhile (\<lambda>x. \<not> brk x) it) s"
  by (induction it arbitrary: s) simp_all

lemma breakFn_matches: "breakFn r q = (\<not> matches q r)"
  by (simp add: breakFn_def matches_def)

lemma compare_refl:
  "total_preorder (comparator a) \<Longrightarrow> compare a a = 0"
  by (simp add: compare_def total_preorder_def)

lemma compare_flip:
  assumes "total_preorder cmp" "comparator a = cmp" "comparator b = cmp"
  shows "(compare a b < 0) = (0 < compare b a)"
proof -
  from assms(1) have flip: "\<And>x y. (cmp x y < 0) = (0 < cmp y x)"
    unfolding total_preorder_def by blast
  have z: "\<And>x y. (cmp x y = 0) = (cmp y x = 0)"
    using flip by (metis less_le not_less)
  show ?thesis
    using flip [of "start a" "start b"] flip [of "end' a" "end' b"]
      z [of "start a" "start b"] flip [of "start b" "start a"]
    by (auto simp: compare_def Let_def assms(2,3))
qed

lemma compare_trans:
  assumes "total_preorder cmp" "comparator a = cmp" "comparator b = cmp"
    and "compare a b \<le> 0" "compare b c \<le> 0"
  shows "compare a c \<le> 0"
proof -
  from assms(1) have flip: "\<And>x y. (cmp x y < 0) = (0 < cmp y x)"
    and trans: "\<And>x y z. cmp x y \<le> 0 \<Longrightarrow> cmp y z \<le> 0 \<Longrightarrow> cmp x z \<le> 0"
    unfolding total_preorder_def by blast+
  let ?sa = "start a" and ?sb = "start b" and ?sc = "start c"
  let ?ea = "end' a" and ?eb = "end' b" and ?ec = "end' c"
  from assms(4) have ab: "cmp ?sa ?sb \<le> 0" "cmp ?sa ?sb = 0 \<Longrightarrow> cmp ?ea ?eb \<le> 0"
    by (auto simp: compare_def Let_def assms(2) split: if_splits)
  from assms(5) have bc: "cmp ?sb ?sc \<le> 0" "cmp ?sb ?sc = 0 \<Longrightarrow> cmp ?eb ?ec \<le> 0"
    by (auto simp: compare_def Let_def assms(3) split: if_splits)
  have ac: "cmp ?sa ?sc \<le> 0"
    using trans [OF ab(1) bc(1)] .
  have "cmp ?ea ?ec \<le> 0" if eq: "cmp ?sa ?sc = 0"
  proof -
    have ca: "cmp ?sc ?sa \<le> 0"
      using flip [of ?sc ?sa] flip [of ?sa ?sc] eq by simp
    have "cmp ?sb ?sa \<le> 0" using trans [OF bc(1) ca] .
    then have e1: "cmp ?sa ?sb = 0"
      using ab(1) flip [of ?sa ?sb] by simp
    have "cmp ?sc ?sb \<le> 0" using trans [OF ca ab(1)] .
    then have e2: "cmp ?sb ?sc = 0"
      using bc(1) flip [of ?sb ?sc] by simp
    show ?thesis using trans [OF ab(2) [OF e1] bc(2) [OF e2]] .
  qed
  then show ?thesis
    using ac by (auto simp: compare_def Let_def assms(2))
qed

lemma compare_not_less:
  assumes "total_preorder cmp" "comparator a = cmp" "comparator b = cmp"
  shows "(\<not> compare a b < 0) = (compare b a \<le> 0)"
  using compare_flip [OF assms] compare_flip [OF assms(1) assms(3) assms(2)] by auto

lemma compare_less_le_trans:
  assumes "total_preorder cmp" "comparator a = cmp" "comparator b = cmp" "comparator c = cmp"
    and "compare a b < 0" "compare b c \<le> 0"
  shows "compare a c < 0"
proof (rule ccontr)
  assume "\<not> compare a c < 0"
  then have "compare c a \<le> 0"
    using compare_not_less [OF assms(1) assms(2) assms(4)] by simp
  then have "compare b a \<le> 0"
    using compare_trans [OF assms(1) assms(3) assms(4) assms(6)] by simp
  then show False
    using compare_not_less [OF assms(1) assms(2) assms(3)] assms(5) by simp
qed


lemma wf_map_Nil [simp]: "wf_map cmp []"
  by (simp add: wf_map_def)

lemma wf_map_Cons:
  "wf_map cmp (e # m) \<longleftrightarrow>
     comparator (fst e) = cmp \<and> range' (snd e) = fst e \<and>
     (\<forall>x \<in> set m. compare (fst e) (fst x) < 0) \<and> wf_map cmp m"
  by (auto simp: wf_map_def)

lemma wf_map_append:
  "wf_map cmp (xs @ ys) \<longleftrightarrow>
     wf_map cmp xs \<and> wf_map cmp ys \<and>
     (\<forall>x \<in> set xs. \<forall>y \<in> set ys. compare (fst x) (fst y) < 0)"
  by (auto simp: wf_map_def sorted_wrt_append)

lemma wf_map_keyD: "wf_map cmp m \<Longrightarrow> e \<in> set m \<Longrightarrow> comparator (fst e) = cmp"
  by (simp add: wf_map_def)

lemma wf_map_filter: "wf_map cmp m \<Longrightarrow> wf_map cmp (filter P m)"
  by (induction m) (auto simp: wf_map_Cons)

lemma wf_map_rev_dropWhile:
  "wf_map cmp m \<Longrightarrow> wf_map cmp (rev (dropWhile P (rev m)))"
proof -
  assume wf: "wf_map cmp m"
  have "m = rev (dropWhile P (rev m)) @ rev (takeWhile P (rev m))"
    by (metis rev_append rev_rev_ident takeWhile_dropWhile_id)
  then show ?thesis
    using wf by (metis wf_map_append)
qed

lemma wf_map_dropWhile: "wf_map cmp m \<Longrightarrow> wf_map cmp (dropWhile P m)"
  by (metis takeWhile_dropWhile_id wf_map_append)

text \<open>Splitting a well-formed map at a key cuts its entry list in two.\<close>

lemma split_append:
  assumes tp: "total_preorder cmp" and q: "comparator q = cmp"
  shows "wf_map cmp m \<Longrightarrow> splitLower compare q m @ splitHigher compare q False m = m"
proof (induction m)
  case Nil
  show ?case by (simp add: splitLower_def splitHigher_def)
next
  case (Cons e m)
  from Cons.prems have ce: "comparator (fst e) = cmp"
    and lt: "\<forall>x \<in> set m. compare (fst e) (fst x) < 0" and wf: "wf_map cmp m"
    by (simp_all add: wf_map_Cons)
  show ?case
  proof (cases "compare (fst e) q \<le> 0")
    case True
    then show ?thesis
      using Cons.IH [OF wf] by (simp add: splitLower_def splitHigher_def)
  next
    case False
    have "\<not> compare (fst x) q \<le> 0" if x: "x \<in> set m" for x
    proof
      assume le: "compare (fst x) q \<le> 0"
      have cx: "comparator (fst x) = cmp" using wf x by (rule wf_map_keyD)
      have "compare (fst e) (fst x) \<le> 0" using lt x by fastforce
      then have "compare (fst e) q \<le> 0"
        using compare_trans [OF tp ce cx _ le] by simp
      with False show False by simp
    qed
    then have gt: "\<forall>x \<in> set m. \<not> compare (fst x) q \<le> 0 \<and> 0 < compare (fst x) q"
      by (simp add: not_le)
    have "filter (\<lambda>x. compare (fst x) q \<le> 0) m = []"
      using gt by (simp add: filter_empty_conv)
    moreover have "filter (\<lambda>x. 0 < compare (fst x) q) m = m"
      using gt by (simp add: filter_id_conv)
    ultimately have "filter (\<lambda>x. compare (fst x) q \<le> 0) m = []"
      and "filter (\<lambda>x. 0 < compare (fst x) q) m = m"
      by simp_all
    then show ?thesis
      using False by (simp add: splitLower_def splitHigher_def)
  qed
qed

lemma splitLower_le: "e \<in> set (splitLower cf q m) \<Longrightarrow> cf (fst e) q \<le> 0"
  by (simp add: splitLower_def)

lemma splitHigher_gt: "e \<in> set (splitHigher cf q False m) \<Longrightarrow> 0 < cf (fst e) q"
  by (simp add: splitHigher_def)

lemma splitLower_append_id:
  "\<forall>e \<in> set lo. cf (fst e) q \<le> 0 \<Longrightarrow> \<forall>e \<in> set hi. 0 < cf (fst e) q \<Longrightarrow>
   splitLower cf q (lo @ hi) = lo"
  by (auto simp: splitLower_def filter_id_conv filter_empty_conv)

lemma splitHigher_append_id:
  "\<forall>e \<in> set lo. cf (fst e) q \<le> 0 \<Longrightarrow> \<forall>e \<in> set hi. 0 < cf (fst e) q \<Longrightarrow>
   splitHigher cf q False (lo @ hi) = hi"
  by (auto simp: splitHigher_def filter_id_conv filter_empty_conv)

text \<open>Looking up a key of a well-formed map finds its own entry.\<close>

lemma get_tm_member:
  assumes tp: "total_preorder cmp"
  shows "wf_map cmp m \<Longrightarrow> e \<in> set m \<Longrightarrow> get_tm compare (fst e) m = Some (snd e)"
proof (induction m)
  case Nil
  then show ?case by simp
next
  case (Cons x m)
  from Cons.prems(1) have cx: "comparator (fst x) = cmp"
    and lt: "\<forall>y \<in> set m. compare (fst x) (fst y) < 0" and wf: "wf_map cmp m"
    by (simp_all add: wf_map_Cons)
  show ?case
  proof (cases "e = x")
    case True
    then show ?thesis
      using compare_refl [of "fst x"] tp cx by (simp add: get_tm_def)
  next
    case False
    with Cons.prems(2) have em: "e \<in> set m" by simp
    then have "compare (fst x) (fst e) < 0" using lt by blast
    then show ?thesis
      using Cons.IH [OF wf em] by (simp add: get_tm_def)
  qed
qed

text \<open>Deleting the keys of a block of consecutive entries removes exactly that block.\<close>

lemma fold_delete_tm:
  "fold (delete_tm cf) ks m = filter (\<lambda>e. \<forall>r \<in> set ks. cf (fst e) r \<noteq> 0) m"
proof (induction ks arbitrary: m)
  case Nil
  show ?case by simp
next
  case (Cons k ks)
  have "fold (delete_tm cf) (k # ks) m = fold (delete_tm cf) ks (delete_tm cf k m)"
    by simp
  also have "\<dots> = filter (\<lambda>e. \<forall>r \<in> set ks. cf (fst e) r \<noteq> 0) (delete_tm cf k m)"
    by (rule Cons.IH)
  also have "\<dots> = filter (\<lambda>e. \<forall>r \<in> set (k # ks). cf (fst e) r \<noteq> 0) m"
    unfolding delete_tm_def filter_filter by (rule filter_cong) auto
  finally show ?case .
qed

lemma delete_block:
  assumes tp: "total_preorder cmp" and wf: "wf_map cmp (A @ B @ C)"
    and ks: "set ks = fst ` set B"
  shows "fold (delete_tm compare) ks (A @ B @ C) = A @ C"
proof -
  let ?P = "\<lambda>e. \<forall>r \<in> set ks. compare (fst e) r \<noteq> 0"
  from wf have wfA: "wf_map cmp A" and wfB: "wf_map cmp B" and wfC: "wf_map cmp C"
    and AB: "\<forall>x \<in> set A. \<forall>y \<in> set B. compare (fst x) (fst y) < 0"
    and BC: "\<forall>x \<in> set B. \<forall>y \<in> set C. compare (fst x) (fst y) < 0"
    by (auto simp: wf_map_append)
  have pA: "?P e" if "e \<in> set A" for e
    using AB that ks by fastforce
  have pC: "?P e" if e: "e \<in> set C" for e
  proof
    fix r assume "r \<in> set ks"
    then obtain b where b: "b \<in> set B" and r: "r = fst b" using ks by auto
    have "compare (fst b) (fst e) < 0" using BC b e by blast
    then have "0 < compare (fst e) (fst b)"
      using compare_flip [OF tp wf_map_keyD [OF wfB b] wf_map_keyD [OF wfC e]] by simp
    then show "compare (fst e) r \<noteq> 0" using r by simp
  qed
  have pB: "\<not> ?P e" if e: "e \<in> set B" for e
  proof -
    have "compare (fst e) (fst e) = 0"
      using compare_refl [of "fst e"] tp wf_map_keyD [OF wfB e] by simp
    moreover have "fst e \<in> set ks" using ks e by simp
    ultimately show ?thesis by blast
  qed
  have "filter ?P A = A" "filter ?P B = []" "filter ?P C = C"
    using pA pB pC by (simp_all add: filter_id_conv filter_empty_conv)
  then show ?thesis
    by (simp add: fold_delete_tm)
qed

lemma children_with_children [simp]: "children (with_children t m) = m"
  by (simp add: with_children_def)

lemma with_children_idem [simp]: "with_children (with_children t m) m' = with_children t m'"
  by (simp add: with_children_def)

lemma with_children_same [simp]: "with_children t (children t) = t"
  by (simp add: with_children_def)

lemma lower_keys:
  "takeWhile (\<lambda>r. \<not> breakFn r q) (reverseKeys (splitLower compare q m)) = map fst (lower_run q m)"
proof -
  have "takeWhile (\<lambda>r. \<not> breakFn r q) (map fst xs) = map fst (takeWhile (\<lambda>e. matches q (fst e)) xs)"
    for xs :: "('a Range \<times> 'b) list"
    by (simp add: takeWhile_map breakFn_matches comp_def)
  from this [of "rev (splitLower compare q m)"] show ?thesis
    by (simp add: reverseKeys_def lower_run_def rev_map)
qed

lemma higher_entries:
  "takeWhile (\<lambda>e. \<not> breakFn (fst e) q) (entries (splitHigher compare q False m))
     = higher_run q m"
  by (simp add: entries_def higher_run_def breakFn_matches)

lemma processIntersecting_fold:
  "processIntersecting q (Some f) s =
     (let s1 = fold (\<lambda>r s'. f (r, get_tm compare r (children (fst s'))) s')
                 (map fst (lower_run q (children (fst s)))) s
      in fold (\<lambda>e s'. f (fst e, Some (snd e)) s') (higher_run q (children (fst s1))) s1)"
  unfolding processIntersecting_def option.case forEachIter_fold Let_def lower_keys higher_entries
  by (rule refl)

lemma find_nodes_scan:
  fixes t :: "('t, 'r) RangeBinTree"
  shows "find_nodes q t =
     map (\<lambda>r. get_tm compare r (children t)) (map fst (lower_run q (children t))) @
     map (\<lambda>e. Some (snd e)) (higher_run q (children t))"
proof -
  define f where "f = (\<lambda>entry :: 'r Range \<times> ('t, 'r) RangeBinTree option.
               \<lambda>(t :: ('t, 'r) RangeBinTree, nodes). (t, nodes @ [snd entry]))"
  have lo: "fold (\<lambda>r s'. f (r, get_tm compare r (children (fst s'))) s') ks (t, acc)
      = (t, acc @ map (\<lambda>r. get_tm compare r (children t)) ks)" for ks acc
    by (induction ks arbitrary: acc) (simp_all add: f_def)
  have hi: "fold (\<lambda>e s'. f (fst e, Some (snd e)) s') es (t, acc)
      = (t, acc @ map (\<lambda>e. Some (snd e)) es)" for es acc
    by (induction es arbitrary: acc) (simp_all add: f_def)
  have "find_nodes q t = snd (processIntersecting q (Some f) (t, []))"
    by (simp add: find_nodes_def f_def)
  then show ?thesis
    by (simp add: processIntersecting_fold lo hi del: map_map)
qed

lemma find_inline_scan:
  "find_inline q t =
     map (\<lambda>r. get_tm compare r (children t)) (map fst (lower_run q (children t))) @
     map (\<lambda>e. Some (snd e)) (higher_run q (children t))"
proof -
  have push: "fold (\<lambda>x nodes. nodes @ [h x]) xs acc = acc @ map h xs" for h :: "'c \<Rightarrow> 'd" and xs acc
    by (induction xs arbitrary: acc) simp_all
  show ?thesis
    unfolding find_inline_def forEachIter_fold Let_def lower_keys higher_entries push
    by simp
qed

lemma find_inline_eq: "find_inline q t = find_nodes q t"
  by (simp only: find_inline_scan find_nodes_scan)

lemma set_lower_run: "set (lower_run q m) \<subseteq> set m"
proof
  fix e assume "e \<in> set (lower_run q m)"
  then have "e \<in> set (rev (splitLower compare q m))"
    unfolding lower_run_def by (rule set_takeWhileD [THEN conjunct1])
  then show "e \<in> set m" by (simp add: splitLower_def)
qed


lemma find_nodes_wf:
  assumes tp: "total_preorder cmp" and wf: "wf_map cmp (children t)"
  shows "find_nodes q t =
     map (\<lambda>e. Some (snd e)) (lower_run q (children t) @ higher_run q (children t))"
proof -
  have "map (\<lambda>r. get_tm compare r (children t)) (map fst (lower_run q (children t)))
      = map (\<lambda>e. Some (snd e)) (lower_run q (children t))"
    using set_lower_run [of q "children t"] get_tm_member [OF tp wf]
    by (auto simp: subset_iff)
  then show ?thesis
    by (simp add: find_nodes_scan)
qed

text \<open>What removeIntersecting leaves of a well-formed child map.\<close>

lemma removeIntersecting_fold:
  fixes t :: "('t, 'r) RangeBinTree"
  shows "children (removeIntersecting q t) =
     (let m1 = fold (delete_tm compare) (map fst (lower_run q (children t))) (children t)
      in fold (delete_tm compare) (map fst (higher_run q m1)) m1)"
proof -
  define f where "f = (\<lambda>entry :: 'r Range \<times> ('t, 'r) RangeBinTree option.
               \<lambda>(t :: ('t, 'r) RangeBinTree, u :: unit). (remove (fst entry) t, u))"
  have lo: "fold (\<lambda>r s'. f (r, get_tm compare r (children (fst s'))) s') ks (t, u)
      = (with_children t (fold (delete_tm compare) ks (children t)), u)" for ks t u
    by (induction ks arbitrary: t) (simp_all add: f_def remove_def)
  have hi: "fold (\<lambda>e s'. f (fst e, Some (snd e)) s') es (t, u)
      = (with_children t (fold (delete_tm compare) (map fst es) (children t)), u)" for es t u
    by (induction es arbitrary: t) (simp_all add: f_def remove_def)
  have "removeIntersecting q t = fst (processIntersecting q (Some f) (t, ()))"
    by (simp add: removeIntersecting_def f_def)
  then show ?thesis
    by (simp add: processIntersecting_fold lo hi Let_def)
qed

lemma removeIntersecting_frame:
  fixes t :: "('t, 'r) RangeBinTree"
  shows "node (removeIntersecting q t) = node t \<and> range' (removeIntersecting q t) = range' t"
proof -
  define f where "f = (\<lambda>entry :: 'r Range \<times> ('t, 'r) RangeBinTree option.
               \<lambda>(t :: ('t, 'r) RangeBinTree, u :: unit). (remove (fst entry) t, u))"
  have lo: "fold (\<lambda>r s'. f (r, get_tm compare r (children (fst s'))) s') ks (t, u)
      = (with_children t (fold (delete_tm compare) ks (children t)), u)" for ks t u
    by (induction ks arbitrary: t) (simp_all add: f_def remove_def)
  have hi: "fold (\<lambda>e s'. f (fst e, Some (snd e)) s') es (t, u)
      = (with_children t (fold (delete_tm compare) (map fst es) (children t)), u)" for es t u
    by (induction es arbitrary: t) (simp_all add: f_def remove_def)
  have "removeIntersecting q t = fst (processIntersecting q (Some f) (t, ()))"
    by (simp add: removeIntersecting_def f_def)
  then show ?thesis
    by (simp add: processIntersecting_fold lo hi Let_def with_children_def)
qed

lemma removeIntersecting_wf:
  assumes tp: "total_preorder cmp" and wf: "wf_map cmp (children t)" and q: "comparator q = cmp"
  shows "children (removeIntersecting q t) = kept_lower q (children t) @ kept_higher q (children t)"
proof -
  let ?m = "children t" and ?P = "\<lambda>e. matches q (fst e)"
  let ?lo = "splitLower compare q ?m" and ?hi = "splitHigher compare q False ?m"
  let ?D = "dropWhile ?P (rev ?lo)" and ?T = "takeWhile ?P (rev ?lo)"
  have m: "?m = ?lo @ ?hi"
    using split_append [OF tp q wf] by simp
  have lo: "?lo = rev ?D @ rev ?T"
    by (metis rev_append rev_rev_ident takeWhile_dropWhile_id)
  have m': "?m = rev ?D @ rev ?T @ ?hi"
    using m lo by (metis append_assoc)
  have wf': "wf_map cmp (rev ?D @ rev ?T @ ?hi)"
    using wf m' by simp
  have "fold (delete_tm compare) (map fst (lower_run q ?m)) (rev ?D @ rev ?T @ ?hi) = rev ?D @ ?hi"
    by (rule delete_block [OF tp wf']) (simp add: lower_run_def)
  then have m1: "fold (delete_tm compare) (map fst (lower_run q ?m)) ?m = rev ?D @ ?hi"
    using m' by simp
  have leD: "\<forall>e \<in> set (rev ?D). compare (fst e) q \<le> 0"
  proof
    fix e assume "e \<in> set (rev ?D)"
    then have "e \<in> set ?lo" using set_dropWhileD by fastforce
    then show "compare (fst e) q \<le> 0" by (rule splitLower_le)
  qed
  have gt: "\<forall>e \<in> set ?hi. 0 < compare (fst e) q"
    by (simp add: splitHigher_def)
  have hi1: "splitHigher compare q False (rev ?D @ ?hi) = ?hi"
    using leD gt by (rule splitHigher_append_id)
  have run: "higher_run q (rev ?D @ ?hi) = takeWhile ?P ?hi"
    by (simp only: higher_run_def hi1)
  have wf2: "wf_map cmp (rev ?D @ takeWhile ?P ?hi @ dropWhile ?P ?hi)"
    using wf' by (auto simp: wf_map_append)
  have "fold (delete_tm compare) (map fst (takeWhile ?P ?hi))
          (rev ?D @ takeWhile ?P ?hi @ dropWhile ?P ?hi) = rev ?D @ dropWhile ?P ?hi"
    by (rule delete_block [OF tp wf2]) simp
  then have "fold (delete_tm compare) (map fst (higher_run q (rev ?D @ ?hi))) (rev ?D @ ?hi)
      = rev ?D @ dropWhile ?P ?hi"
    by (simp add: run)
  then show ?thesis
    by (simp add: removeIntersecting_fold Let_def m1 kept_lower_def kept_higher_def)
qed

lemma takeWhile_eq_filter:
  "sorted_wrt (\<lambda>a b. P b \<longrightarrow> P a) xs \<Longrightarrow> takeWhile P xs = filter P xs"
proof (induction xs)
  case Nil
  show ?case by simp
next
  case (Cons x xs)
  show ?case
  proof (cases "P x")
    case True
    then show ?thesis using Cons by simp
  next
    case False
    with Cons.prems have "\<forall>y \<in> set xs. \<not> P y" by auto
    then have "filter P xs = []" by (simp add: filter_empty_conv)
    with False show ?thesis by simp
  qed
qed

lemma cmp_not_less:
  assumes "total_preorder cmp"
  shows "(\<not> cmp x y < 0) = (cmp y x \<le> 0)"
proof -
  from assms have flip: "\<And>x y. (cmp x y < 0) = (0 < cmp y x)"
    unfolding total_preorder_def by blast
  show ?thesis using flip [of x y] flip [of y x] by auto
qed

lemma cmp_trans:
  "total_preorder cmp \<Longrightarrow> cmp x y \<le> 0 \<Longrightarrow> cmp y z \<le> 0 \<Longrightarrow> cmp x z \<le> 0"
  unfolding total_preorder_def by blast

lemma cmp_less_le_trans:
  assumes tp: "total_preorder cmp" and "cmp x y < 0" "cmp y z \<le> 0"
  shows "cmp x z < 0"
proof (rule ccontr)
  assume "\<not> cmp x z < 0"
  then have "cmp z x \<le> 0" using cmp_not_less [OF tp] by simp
  then have "cmp y x \<le> 0" using cmp_trans [OF tp assms(3)] by simp
  then show False using cmp_not_less [OF tp, of x y] assms(2) by simp
qed

lemma cmp_le_less_trans:
  assumes tp: "total_preorder cmp" and "cmp x y \<le> 0" "cmp y z < 0"
  shows "cmp x z < 0"
proof (rule ccontr)
  assume "\<not> cmp x z < 0"
  then have "cmp z x \<le> 0" using cmp_not_less [OF tp] by simp
  then have "cmp z y \<le> 0" using cmp_trans [OF tp _ assms(2)] by simp
  then show False using cmp_not_less [OF tp, of y z] assms(3) by simp
qed

lemma cmp_irrefl: "total_preorder cmp \<Longrightarrow> \<not> cmp x x < 0"
  unfolding total_preorder_def by simp

lemma compare_le_start:
  "comparator a = cmp \<Longrightarrow> compare a b \<le> 0 \<Longrightarrow> cmp (start a) (start b) \<le> 0"
  by (auto simp: compare_def Let_def split: if_splits)

lemma compare_gt_start:
  "comparator a = cmp \<Longrightarrow> 0 < compare a b \<Longrightarrow> 0 \<le> cmp (start a) (start b)"
  by (auto simp: compare_def Let_def split: if_splits)

lemma siblings_well_formed:
  assumes tp: "total_preorder cmp" and sib: "siblings_ok m" and a: "a \<in> set m"
    and ca: "comparator (fst a) = cmp"
  shows "cmp (start (fst a)) (end' (fst a)) \<le> 0"
proof -
  have "compare (fst a) (fst a) = 0"
    using compare_refl [of "fst a"] tp ca by simp
  then have "\<not> cmp (end' (fst a)) (start (fst a)) < 0"
    using sib a ca unfolding siblings_ok_def by fastforce
  then show ?thesis using cmp_not_less [OF tp] by simp
qed

text \<open>Below the split point only the greatest key can match.\<close>

lemma lower_no_match:
  assumes tp: "total_preorder cmp" and sib: "siblings_ok m"
    and a: "a \<in> set m" and b: "b \<in> set m"
    and ca: "comparator (fst a) = cmp" and cb: "comparator (fst b) = cmp"
    and wq: "cmp (start q) (end' q) \<le> 0"
    and ab: "compare (fst a) (fst b) < 0" and bq: "compare (fst b) q \<le> 0"
  shows "\<not> matches q (fst a)"
proof
  assume mt: "matches q (fst a)"
  let ?sa = "start (fst a)" and ?ea = "end' (fst a)" and ?sb = "start (fst b)"
  have left: "cmp ?ea ?sb < 0"
    using sib a b ab ca unfolding siblings_ok_def by fastforce
  have wa: "cmp ?sa ?ea \<le> 0"
    using siblings_well_formed [OF tp sib a ca] .
  have sbq: "cmp ?sb (start q) \<le> 0"
    using compare_le_start [OF cb bq] .
  have eaq: "cmp ?ea (start q) < 0"
    using cmp_less_le_trans [OF tp left sbq] .
  have n1: "\<not> cmp (start q) ?ea \<le> 0"
    using eaq cmp_not_less [OF tp, of ?ea "start q"] by simp
  have n2: "\<not> cmp (end' q) ?ea \<le> 0"
  proof
    assume "cmp (end' q) ?ea \<le> 0"
    then have "cmp (start q) ?ea \<le> 0" using cmp_trans [OF tp wq] by simp
    with n1 show False by simp
  qed
  have n3: "\<not> 0 \<le> cmp ?sa (start q)"
  proof
    assume "0 \<le> cmp ?sa (start q)"
    then have "cmp (start q) ?sa \<le> 0"
      using cmp_not_less [OF tp, of ?sa "start q"] by simp
    then have "cmp (start q) ?ea \<le> 0" using cmp_trans [OF tp _ wa] by simp
    with n1 show False by simp
  qed
  from mt n1 n2 n3 show False
    by (simp add: matches_def intersects_def contains_def inside_def ca)
qed

text \<open>Above the split point a match is preceded by matches only.\<close>

lemma higher_match_down:
  assumes tp: "total_preorder cmp" and sib: "siblings_ok m"
    and a: "a \<in> set m" and b: "b \<in> set m"
    and ca: "comparator (fst a) = cmp" and cb: "comparator (fst b) = cmp"
    and ab: "compare (fst a) (fst b) < 0" and aq: "0 < compare (fst a) q"
    and mt: "matches q (fst b)"
  shows "matches q (fst a)"
proof -
  let ?sa = "start (fst a)" and ?ea = "end' (fst a)"
  let ?sb = "start (fst b)" and ?eb = "end' (fst b)"
  have left: "cmp ?ea ?sb < 0"
    using sib a b ab ca unfolding siblings_ok_def by fastforce
  have wa: "cmp ?sa ?ea \<le> 0"
    using siblings_well_formed [OF tp sib a ca] .
  have wb: "cmp ?sb ?eb \<le> 0"
    using siblings_well_formed [OF tp sib b cb] .
  have saq: "0 \<le> cmp ?sa (start q)"
    using compare_gt_start [OF ca aq] .
  then have qsa: "cmp (start q) ?sa \<le> 0"
    using cmp_not_less [OF tp, of ?sa "start q"] by simp
  have n1: "\<not> cmp ?sb (start q) \<le> 0"
  proof
    assume "cmp ?sb (start q) \<le> 0"
    then have "cmp ?ea (start q) < 0" using cmp_less_le_trans [OF tp left] by simp
    then have "cmp ?ea ?sa < 0" using cmp_less_le_trans [OF tp _ qsa] by simp
    then show False using cmp_not_less [OF tp, of ?ea ?sa] wa by simp
  qed
  have e: "cmp ?ea (end' q) \<le> 0" if "cmp ?sb (end' q) \<le> 0"
  proof -
    have "cmp ?ea (end' q) < 0" using cmp_less_le_trans [OF tp left that] .
    then show ?thesis by simp
  qed
  from mt consider "cmp ?sb (end' q) \<le> 0" | "cmp ?eb (end' q) \<le> 0"
    using n1 by (auto simp: matches_def intersects_def contains_def inside_def cb)
  then have "cmp ?ea (end' q) \<le> 0"
  proof cases
    case 1
    then show ?thesis by (rule e)
  next
    case 2
    have "cmp ?sb (end' q) \<le> 0" using cmp_trans [OF tp wb 2] .
    then show ?thesis by (rule e)
  qed
  with saq show ?thesis
    by (simp add: matches_def inside_def ca)
qed

lemma takeWhile_dropWhile_Nil: "takeWhile P (dropWhile P xs) = []"
  by (induction xs) simp_all

lemma compare_eq0_matches: "compare r q = 0 \<Longrightarrow> matches q r"
  by (auto simp: compare_def Let_def matches_def inside_def split: if_splits)


lemma set_tm_insert:
  assumes lo: "\<forall>e \<in> set lo. 0 < cf key (fst e)" and hi: "\<forall>e \<in> set hi. cf key (fst e) < 0"
  shows "set_tm cf key v (lo @ hi) = lo @ (key, v) # hi"
  using lo
proof (induction lo)
  case Nil
  show ?case using hi by (cases hi) auto
next
  case (Cons e lo)
  then show ?case by (cases e) auto
qed

lemma runs_are_filters:
  assumes tp: "total_preorder cmp" and wf: "wf_map cmp m" and sib: "siblings_ok m"
    and q: "comparator q = cmp" and wq: "well_formed q"
  shows "lower_run q m = filter (\<lambda>e. matches q (fst e)) (rev (splitLower compare q m))"
    and "higher_run q m = filter (\<lambda>e. matches q (fst e)) (splitHigher compare q False m)"
proof -
  let ?P = "\<lambda>e. matches q (fst e)"
  let ?lo = "splitLower compare q m" and ?hi = "splitHigher compare q False m"
  from wq q have wq': "cmp (start q) (end' q) \<le> 0" by (simp add: well_formed_def)
  have slo: "sorted_wrt (\<lambda>x y. compare (fst x) (fst y) < 0) ?lo"
    using wf_map_filter [OF wf] by (simp add: wf_map_def splitLower_def sorted_wrt_map)
  have shi: "sorted_wrt (\<lambda>x y. compare (fst x) (fst y) < 0) ?hi"
    using wf_map_filter [OF wf] by (simp add: wf_map_def splitHigher_def sorted_wrt_map)
  have "sorted_wrt (\<lambda>a b. ?P a \<longrightarrow> ?P b) ?lo"
  proof (rule sorted_wrt_mono_rel [OF _ slo])
    fix a b assume a: "a \<in> set ?lo" and b: "b \<in> set ?lo" and ab: "compare (fst a) (fst b) < 0"
    from a b have am: "a \<in> set m" and bm: "b \<in> set m" by (simp_all add: splitLower_def)
    have "\<not> ?P a"
      using lower_no_match [OF tp sib am bm wf_map_keyD [OF wf am] wf_map_keyD [OF wf bm] wq' ab]
        splitLower_le [OF b] by simp
    then show "?P a \<longrightarrow> ?P b" by simp
  qed
  then have "sorted_wrt (\<lambda>a b. ?P b \<longrightarrow> ?P a) (rev ?lo)"
    by (simp add: sorted_wrt_rev)
  then show "lower_run q m = filter ?P (rev ?lo)"
    unfolding lower_run_def by (rule takeWhile_eq_filter)
  have "sorted_wrt (\<lambda>a b. ?P b \<longrightarrow> ?P a) ?hi"
  proof (rule sorted_wrt_mono_rel [OF _ shi])
    fix a b assume a: "a \<in> set ?hi" and b: "b \<in> set ?hi" and ab: "compare (fst a) (fst b) < 0"
    from a b have am: "a \<in> set m" and bm: "b \<in> set m" by (simp_all add: splitHigher_def)
    show "?P b \<longrightarrow> ?P a"
      using higher_match_down [OF tp sib am bm wf_map_keyD [OF wf am] wf_map_keyD [OF wf bm] ab]
        splitHigher_gt [OF a] by simp
  qed
  then show "higher_run q m = filter ?P ?hi"
    unfolding higher_run_def by (rule takeWhile_eq_filter)
qed

text \<open>The child map after \<open>removeIntersecting\<close>, cut at the query key.\<close>

lemma removeIntersecting_kept:
  assumes tp: "total_preorder cmp" and wf: "wf_map cmp (children t)" and q: "comparator q = cmp"
  shows "wf_map cmp (kept_lower q (children t) @ kept_higher q (children t))"
    and "\<forall>e \<in> set (kept_lower q (children t)). compare (fst e) q < 0"
    and "\<forall>e \<in> set (kept_higher q (children t)). 0 < compare (fst e) q"
    and "takeWhile (\<lambda>e. matches q (fst e)) (rev (kept_lower q (children t))) = []"
    and "takeWhile (\<lambda>e. matches q (fst e)) (kept_higher q (children t)) = []"
proof -
  let ?m = "children t" and ?P = "\<lambda>e. matches q (fst e)"
  let ?lo = "splitLower compare q ?m" and ?hi = "splitHigher compare q False ?m"
  let ?lo' = "rev (dropWhile ?P (rev ?lo))" and ?hi' = "dropWhile ?P ?hi"
  have wflh: "wf_map cmp (?lo @ ?hi)"
    using split_append [OF tp q wf] wf by simp
  have wflo: "wf_map cmp ?lo" and wfhi: "wf_map cmp ?hi"
    and cross: "\<forall>x \<in> set ?lo. \<forall>y \<in> set ?hi. compare (fst x) (fst y) < 0"
    using wflh by (simp_all add: wf_map_append)
  have sub_lo: "set ?lo' \<subseteq> set ?lo"
    using set_dropWhileD by fastforce
  have sub_hi: "set ?hi' \<subseteq> set ?hi"
    using set_dropWhileD by fastforce
  have cross': "\<forall>x \<in> set ?lo'. \<forall>y \<in> set ?hi'. compare (fst x) (fst y) < 0"
    using cross sub_lo sub_hi by (meson subsetD)
  have wf': "wf_map cmp (?lo' @ ?hi')"
    using wf_map_append [of cmp ?lo' ?hi'] wf_map_rev_dropWhile [OF wflo, of ?P]
      wf_map_dropWhile [OF wfhi, of ?P] cross' by blast
  have lt: "\<forall>e \<in> set ?lo'. compare (fst e) q < 0"
  proof (cases "rev ?lo")
    case Nil
    then show ?thesis by simp
  next
    case (Cons g rest)
    then have lo: "?lo = rev rest @ [g]" by (metis rev.simps(2) rev_rev_ident)
    have g: "g \<in> set ?lo" using lo by simp
    have gq: "compare (fst g) q \<le> 0" using splitLower_le [OF g] .
    have cg: "comparator (fst g) = cmp" using wf_map_keyD [OF wflo g] .
    have rest: "compare (fst e) q < 0" if e: "e \<in> set rest" for e
    proof -
      have "compare (fst e) (fst g) < 0"
        using wflo e unfolding lo by (simp add: wf_map_append)
      moreover have "comparator (fst e) = cmp"
        using wf_map_keyD [OF wflo, of e] e lo by simp
      ultimately show ?thesis
        using compare_less_le_trans [OF tp _ cg q _ gq] by simp
    qed
    show ?thesis
    proof (cases "?P g")
      case True
      then have "set ?lo' \<subseteq> set rest"
        using Cons set_dropWhileD by fastforce
      then show ?thesis using rest by blast
    next
      case False
      then have "compare (fst g) q \<noteq> 0" using compare_eq0_matches by blast
      then have "compare (fst g) q < 0" using gq by simp
      moreover have "set ?lo' \<subseteq> insert g (set rest)"
        using Cons False by simp
      ultimately show ?thesis using rest by blast
    qed
  qed
  have gt: "\<forall>e \<in> set ?hi'. 0 < compare (fst e) q"
  proof
    fix e assume "e \<in> set ?hi'"
    then have "e \<in> set ?hi" using sub_hi by blast
    then show "0 < compare (fst e) q" by (rule splitHigher_gt)
  qed
  show "wf_map cmp (kept_lower q ?m @ kept_higher q ?m)"
    unfolding kept_lower_def kept_higher_def by (rule wf')
  show "\<forall>e \<in> set (kept_lower q ?m). compare (fst e) q < 0"
    unfolding kept_lower_def by (rule lt)
  show "\<forall>e \<in> set (kept_higher q ?m). 0 < compare (fst e) q"
    unfolding kept_higher_def by (rule gt)
  show "takeWhile ?P (rev (kept_lower q ?m)) = []"
    by (simp add: kept_lower_def takeWhile_dropWhile_Nil)
  show "takeWhile ?P (kept_higher q ?m) = []"
    by (simp add: kept_higher_def takeWhile_dropWhile_Nil)
qed

lemma children_siblings_tree:
  "children siblings_tree =
     [(NumberRange 0 5, RangeBinTree ''a'' (NumberRange 0 5) []),
      (NumberRange 6 9, RangeBinTree ''b'' (NumberRange 6 9) []),
      (NumberRange 10 15, RangeBinTree ''c'' (NumberRange 10 15) [])]"
  by (simp add: siblings_tree_def addChild_def addChildNode_def newRangeBinTree_def
      with_children_def compare_def compareNumbers_def)

lemma wf_siblings_tree: "wf_map compareNumbers (children siblings_tree)"
  by (simp add: children_siblings_tree wf_map_def compare_def compareNumbers_def)

lemma siblings_ok_siblings_tree: "siblings_ok (children siblings_tree)"
  by (simp add: children_siblings_tree siblings_ok_def compare_def compareNumbers_def)

text \<open>
  C4: on every node (with a well-formed child map over a total-preorder
  comparator shared with the query), \<open>removeIntersecting(q)\<close> followed by
  \<open>find(q)\<close> returns the empty sequence.
\<close>

theorem removeIntersecting_then_find:
  assumes tp: "total_preorder cmp" and wf: "wf_map cmp (children t)" and q: "comparator q = cmp"
  shows "find_nodes q (removeIntersecting q t) = []"
proof -
  let ?P = "\<lambda>e. matches q (fst e)"
  let ?lo' = "kept_lower q (children t)" and ?hi' = "kept_higher q (children t)"
  note kept = removeIntersecting_kept [OF tp wf q]
  have ch: "children (removeIntersecting q t) = ?lo' @ ?hi'"
    by (rule removeIntersecting_wf [OF tp wf q])
  from kept(2) have le: "\<forall>e \<in> set ?lo'. compare (fst e) q \<le> 0" by fastforce
  have "lower_run q (?lo' @ ?hi') = []"
    by (simp only: lower_run_def splitLower_append_id [where cf = compare, OF le kept(3)] kept(4))
  moreover have "higher_run q (?lo' @ ?hi') = []"
    by (simp only: higher_run_def splitHigher_append_id [where cf = compare, OF le kept(3)] kept(5))
  ultimately show ?thesis
    using find_nodes_wf [OF tp, of "removeIntersecting q t" q] kept(1) by (simp add: ch)
qed

theorem removeIntersecting_then_find_witness:
  "total_preorder compareNumbers \<and> wf_map compareNumbers (children siblings_tree) \<and>
   comparator (NumberRange 3 8) = compareNumbers \<and>
   find_nodes (NumberRange 3 8) (removeIntersecting (NumberRange 3 8) siblings_tree) = []"
  using removeIntersecting_then_find [OF total_preorder_compareNumbers wf_siblings_tree,
      of "NumberRange 3 8"]
  by (simp add: total_preorder_compareNumbers wf_siblings_tree)

section \<open>Replacing and finding under the sibling invariant\<close>

lemma tree_eqI:
  "node a = node b \<Longrightarrow> range' a = range' b \<Longrightarrow> children a = children b \<Longrightarrow> a = b"
  by (rule RangeBinTree.expand) simp

lemma dropWhile_id: "takeWhile P xs = [] \<Longrightarrow> dropWhile P xs = xs"
  by (metis append_Nil takeWhile_dropWhile_id)

lemma addChild_children:
  "children (addChild q v t) = set_tm compare q (newRangeBinTree q v) (children t)"
  by (simp add: addChild_def addChildNode_def newRangeBinTree_def)

lemma addChild_frame: "node (addChild q v t) = node t \<and> range' (addChild q v t) = range' t"
  by (simp add: addChild_def addChildNode_def with_children_def)

lemma get_tm_middle:
  assumes "\<forall>e \<in> set lo. cf (fst e) key \<noteq> 0" and "cf k key = 0"
  shows "get_tm cf key (lo @ (k, v) # hi) = Some v"
  using assms by (induction lo) (auto simp: get_tm_def)

text \<open>The child map after \<open>replaceIntersecting\<close>.\<close>

lemma replaceIntersecting_children:
  fixes t :: "('t, 'r) RangeBinTree"
  assumes tp: "total_preorder cmp" and wf: "wf_map cmp (children t)" and q: "comparator q = cmp"
  shows "children (replaceIntersecting q v t) =
           kept_lower q (children t) @ (q, newRangeBinTree q v) # kept_higher q (children t)"
    and "wf_map cmp (kept_lower q (children t) @ (q, newRangeBinTree q v) # kept_higher q (children t))"
proof -
  let ?lo' = "kept_lower q (children t)" and ?hi' = "kept_higher q (children t)"
  let ?c = "newRangeBinTree q v :: ('t, 'r) RangeBinTree"
  note kept = removeIntersecting_kept [OF tp wf q]
  have ch: "children (removeIntersecting q t) = ?lo' @ ?hi'"
    by (rule removeIntersecting_wf [OF tp wf q])
  have klo: "comparator (fst e) = cmp" if "e \<in> set ?lo'" for e
    using wf_map_keyD [OF kept(1), of e] that by simp
  have khi: "comparator (fst e) = cmp" if "e \<in> set ?hi'" for e
    using wf_map_keyD [OF kept(1), of e] that by simp
  have qlo: "\<forall>e \<in> set ?lo'. 0 < compare q (fst e)"
  proof
    fix e assume e: "e \<in> set ?lo'"
    then have "compare (fst e) q < 0" using kept(2) by blast
    then show "0 < compare q (fst e)"
      using compare_flip [OF tp klo [OF e] q] by simp
  qed
  have qhi: "\<forall>e \<in> set ?hi'. compare q (fst e) < 0"
  proof
    fix e assume e: "e \<in> set ?hi'"
    then have "0 < compare (fst e) q" using kept(3) by blast
    then show "compare q (fst e) < 0"
      using compare_flip [OF tp q khi [OF e]] by simp
  qed
  show "children (replaceIntersecting q v t) = ?lo' @ (q, ?c) # ?hi'"
    using set_tm_insert [where cf = compare, OF qlo qhi]
    by (simp add: replaceIntersecting_def addChild_children ch)
  have wflo: "wf_map cmp ?lo'" and wfhi: "wf_map cmp ?hi'"
    and cross: "\<forall>x \<in> set ?lo'. \<forall>y \<in> set ?hi'. compare (fst x) (fst y) < 0"
    using kept(1) by (simp_all add: wf_map_append)
  have "wf_map cmp ((q, ?c) # ?hi')"
    using wfhi qhi by (simp add: wf_map_Cons q newRangeBinTree_def)
  then show "wf_map cmp (?lo' @ (q, ?c) # ?hi')"
    using wflo cross kept(2) by (simp add: wf_map_append)
qed

lemma removeIntersecting_replaceIntersecting:
  fixes t :: "('t, 'r) RangeBinTree"
  assumes tp: "total_preorder cmp" and wf: "wf_map cmp (children t)" and q: "comparator q = cmp"
  shows "removeIntersecting q (replaceIntersecting q v t) = removeIntersecting q t"
proof (rule tree_eqI)
  let ?P = "\<lambda>e :: 'r Range \<times> ('t, 'r) RangeBinTree. matches q (fst e)"
  let ?c = "newRangeBinTree q v :: ('t, 'r) RangeBinTree"
  let ?t1 = "replaceIntersecting q v t"
  let ?lo' = "kept_lower q (children t)" and ?hi' = "kept_higher q (children t)"
  show "node (removeIntersecting q ?t1) = node (removeIntersecting q t)"
    by (simp add: removeIntersecting_frame replaceIntersecting_def addChild_frame)
  show "range' (removeIntersecting q ?t1) = range' (removeIntersecting q t)"
    by (simp add: removeIntersecting_frame replaceIntersecting_def addChild_frame)
  note kept = removeIntersecting_kept [OF tp wf q]
  note rep = replaceIntersecting_children [OF tp wf q, of v]
  have qq: "compare q q = 0" using compare_refl [of q] tp q by simp
  have le: "\<forall>e \<in> set (?lo' @ [(q, ?c)]). compare (fst e) q \<le> 0"
    using kept(2) qq by fastforce
  have m1: "children ?t1 = (?lo' @ [(q, ?c)]) @ ?hi'" using rep(1) by simp
  have lo1: "splitLower compare q (children ?t1) = ?lo' @ [(q, ?c)]"
    unfolding m1 using le kept(3) by (rule splitLower_append_id)
  have hi1: "splitHigher compare q False (children ?t1) = ?hi'"
    unfolding m1 using le kept(3) by (rule splitHigher_append_id)
  have pq: "?P (q, ?c)" using compare_eq0_matches [OF qq] by simp
  have wf1: "wf_map cmp (children ?t1)" using rep by simp
  have "kept_lower q (children ?t1) = ?lo'"
    unfolding kept_lower_def lo1 using pq dropWhile_id [OF kept(4)] by simp
  moreover have "kept_higher q (children ?t1) = ?hi'"
    unfolding kept_higher_def hi1
    using dropWhile_id [OF kept(5)] by (simp add: kept_higher_def)
  ultimately show "children (removeIntersecting q ?t1) = children (removeIntersecting q t)"
    by (simp add: removeIntersecting_wf [OF tp wf1 q] removeIntersecting_wf [OF tp wf q])
qed

text \<open>With the sibling invariant and a well-formed query the scans reach every match.\<close>

lemma dropWhile_eq_filter:
  "takeWhile P xs = filter P xs \<Longrightarrow> dropWhile P xs = filter (\<lambda>x. \<not> P x) xs"
proof (induction xs)
  case Nil
  show ?case by simp
next
  case (Cons x xs)
  show ?case
  proof (cases "P x")
    case True
    have "takeWhile P xs = filter P xs" using Cons.prems True by simp
    then have "dropWhile P xs = filter (\<lambda>x. \<not> P x) xs" by (rule Cons.IH)
    then show ?thesis using True by simp
  next
    case False
    have "filter P xs = []" using Cons.prems False by simp
    then have a: "\<forall>y \<in> set xs. \<not> P y" by (simp add: filter_empty_conv)
    have "filter (\<lambda>x. \<not> P x) xs = xs" 
      by (rule filter_True) (use a in blast)
    with False show ?thesis by simp
  qed
qed

lemma removeIntersecting_all:
  assumes tp: "total_preorder cmp" and wf: "wf_map cmp (children t)" and q: "comparator q = cmp"
    and sib: "siblings_ok (children t)" and wq: "well_formed q"
  shows "children (removeIntersecting q t) = filter (\<lambda>e. \<not> matches q (fst e)) (children t)"
proof -
  let ?m = "children t" and ?P = "\<lambda>e. matches q (fst e)"
  let ?lo = "splitLower compare q ?m" and ?hi = "splitHigher compare q False ?m"
  note runs = runs_are_filters [OF tp wf sib q wq]
  have "dropWhile ?P (rev ?lo) = filter (\<lambda>e. \<not> ?P e) (rev ?lo)"
    using runs(1) unfolding lower_run_def by (rule dropWhile_eq_filter)
  moreover have "dropWhile ?P ?hi = filter (\<lambda>e. \<not> ?P e) ?hi"
    using runs(2) unfolding higher_run_def by (rule dropWhile_eq_filter)
  ultimately have "children (removeIntersecting q t)
      = filter (\<lambda>e. \<not> ?P e) ?lo @ filter (\<lambda>e. \<not> ?P e) ?hi"
    by (simp add: removeIntersecting_wf [OF tp wf q] kept_lower_def kept_higher_def rev_filter)
  also have "\<dots> = filter (\<lambda>e. \<not> ?P e) (?lo @ ?hi)" by simp
  finally show ?thesis
    by (simp only: split_append [OF tp q wf])
qed

lemma find_nodes_all:
  assumes tp: "total_preorder cmp" and wf: "wf_map cmp (children t)" and q: "comparator q = cmp"
    and sib: "siblings_ok (children t)" and wq: "well_formed q"
  shows "find_nodes q t =
     map (\<lambda>e. Some (snd e))
       (rev (filter (\<lambda>e. matches q (fst e)) (splitLower compare q (children t))) @
        filter (\<lambda>e. matches q (fst e)) (splitHigher compare q False (children t)))"
  using runs_are_filters [OF tp wf sib q wq]
  by (simp add: find_nodes_wf [OF tp wf] rev_filter)

lemma children_overlapping_tree:
  "children overlapping_tree =
     [(NumberRange 0 10, RangeBinTree ''a'' (NumberRange 0 10) []),
      (NumberRange 2 3, RangeBinTree ''b'' (NumberRange 2 3) [])]"
  by (simp add: overlapping_tree_def addChild_def addChildNode_def newRangeBinTree_def
      with_children_def compare_def compareNumbers_def)

lemma wf_overlapping_tree: "wf_map compareNumbers (children overlapping_tree)"
  by (simp add: children_overlapping_tree wf_map_def compare_def compareNumbers_def)

lemmas eval_defs = splitLower_def splitHigher_def matches_def intersects_def contains_def
  inside_def compare_def compareNumbers_def lower_run_def higher_run_def kept_lower_def
  kept_higher_def newRangeBinTree_def get_tm_def

lemma wf_map_distinct_keys:
  assumes tp: "total_preorder cmp" and wf: "wf_map cmp m"
  shows "distinct (map fst m)"
  using wf
proof (induction m)
  case Nil
  show ?case by simp
next
  case (Cons e m)
  from Cons.prems have ce: "comparator (fst e) = cmp"
    and lt: "\<forall>x \<in> set m. compare (fst e) (fst x) < 0" and wf: "wf_map cmp m"
    by (simp_all add: wf_map_Cons)
  have "fst e \<notin> fst ` set m"
  proof
    assume "fst e \<in> fst ` set m"
    then obtain x where x: "x \<in> set m" and "fst x = fst e" by auto
    then have "compare (fst e) (fst e) < 0" using lt by fastforce
    then show False using compare_refl [of "fst e"] tp ce by simp
  qed
  then show ?case using Cons.IH [OF wf] by simp
qed

lemma wf_map_distinct_values:
  assumes tp: "total_preorder cmp" and wf: "wf_map cmp m"
  shows "distinct (map snd m)"
proof -
  have eq: "map fst m = map (\<lambda>e. range' (snd e)) m"
    by (rule map_cong) (use wf in \<open>simp_all add: wf_map_def\<close>)
  have "distinct (map (\<lambda>e. range' (snd e)) m)"
    using wf_map_distinct_keys [OF tp wf] unfolding eq .
  then have "distinct (map range' (map snd m))"
    by (simp add: comp_def)
  then show ?thesis by (auto simp: distinct_map inj_on_def)
qed

lemma distinct_map_takeWhile:
  "distinct (map f xs) \<Longrightarrow> distinct (map f (takeWhile P xs))"
  by (induction xs) (auto dest: set_takeWhileD)

lemma find_nodes_all_set:
  assumes tp: "total_preorder cmp" and wf: "wf_map cmp (children t)" and q: "comparator q = cmp"
    and sib: "siblings_ok (children t)" and wq: "well_formed q"
  shows "set (find_nodes q t) = (\<lambda>e. Some (snd e)) ` {e \<in> set (children t). matches q (fst e)}"
proof -
  let ?m = "children t" and ?P = "\<lambda>e. matches q (fst e)"
  let ?lo = "splitLower compare q ?m" and ?hi = "splitHigher compare q False ?m"
  have "set ?lo \<union> set ?hi = set ?m"
    using split_append [OF tp q wf] by (metis set_append)
  then have "set (rev (filter ?P ?lo) @ filter ?P ?hi) = {e \<in> set ?m. ?P e}"
    by auto
  then show ?thesis
    by (simp only: find_nodes_all [OF tp wf q sib wq] set_map)
qed

lemma find_nodes_distinct:
  assumes tp: "total_preorder cmp" and wf: "wf_map cmp (children t)" and q: "comparator q = cmp"
  shows "distinct (find_nodes q t)"
proof -
  let ?m = "children t" and ?P = "\<lambda>e. matches q (fst e)"
  let ?lo = "splitLower compare q ?m" and ?hi = "splitHigher compare q False ?m"
  have m: "?lo @ ?hi = ?m" using split_append [OF tp q wf] .
  have dv: "distinct (map snd (?lo @ ?hi))"
    using wf_map_distinct_values [OF tp wf] m by simp
  have sub_lo: "set (lower_run q ?m) \<subseteq> set ?lo"
    unfolding lower_run_def using set_takeWhileD by fastforce
  have sub_hi: "set (higher_run q ?m) \<subseteq> set ?hi"
    unfolding higher_run_def using set_takeWhileD by fastforce
  have d1: "distinct (map snd (lower_run q ?m))"
  proof -
    have "distinct (map snd (rev ?lo))" using dv by (simp add: rev_map [symmetric])
    then have "distinct (map snd (takeWhile ?P (rev ?lo)))"
      by (rule distinct_map_takeWhile)
    then show ?thesis by (simp add: lower_run_def)
  qed
  have d2: "distinct (map snd (higher_run q ?m))"
  proof -
    have "distinct (map snd ?hi)" using dv by simp
    then have "distinct (map snd (takeWhile ?P ?hi))"
      by (rule distinct_map_takeWhile)
    then show ?thesis by (simp add: higher_run_def)
  qed
  have disj: "snd ` set (lower_run q ?m) \<inter> snd ` set (higher_run q ?m) = {}"
  proof -
    have "snd ` set ?lo \<inter> snd ` set ?hi = {}" using dv by simp
    then show ?thesis using sub_lo sub_hi by blast
  qed
  have some: "distinct (map Some xs)" if "distinct xs" for xs :: "('b, 'a) RangeBinTree list"
    using that by (simp add: distinct_map)
  have "distinct (map snd (lower_run q ?m @ higher_run q ?m))"
    using d1 d2 disj by simp
  then have "distinct (map Some (map snd (lower_run q ?m @ higher_run q ?m)))"
    by (rule some)
  moreover have "find_nodes q t = map Some (map snd (lower_run q ?m @ higher_run q ?m))"
    by (simp add: find_nodes_wf [OF tp wf] comp_def)
  ultimately show ?thesis by simp
qed

text \<open>
  C1 (as amended): for every node whose child map is well formed and whose
  sibling intervals satisfy the ordering invariant, and for every query \<open>q\<close>
  over the same comparator with \<open>q.start \<le> q.end\<close>, \<open>find(q)\<close> returns exactly
  the direct children \<open>c\<close> with \<open>c.range.intersects(q)\<close> or \<open>c.range.inside(q)\<close>,
  each once and none undefined; the earlier inline version of \<open>find\<close> returns the
  same sequence.  With the siblings \<open>[0,5]\<close>, \<open>[6,9]\<close>, \<open>[10,15]\<close>, \<open>find([7,7])\<close>
  returns exactly the \<open>[6,9]\<close> child.
\<close>

theorem find_returns_matching_children:
  assumes tp: "total_preorder cmp" and wf: "wf_map cmp (children t)" and q: "comparator q = cmp"
    and sib: "siblings_ok (children t)" and wq: "well_formed q"
  shows "(\<forall>c. Some c \<in> set (find_nodes q t) \<longleftrightarrow>
            c \<in> set (values_tm (children t)) \<and> (intersects (range' c) q \<or> inside (range' c) q)) \<and>
         None \<notin> set (find_nodes q t) \<and> distinct (find_nodes q t) \<and>
         find_inline q t = find_nodes q t \<and>
         find_nodes (NumberRange 7 7) siblings_tree = [Some (RangeBinTree ''b'' (NumberRange 6 9) [])]"
proof (intro conjI allI)
  have s: "set (find_nodes q t) = (\<lambda>e. Some (snd e)) ` {e \<in> set (children t). matches q (fst e)}"
    by (rule find_nodes_all_set [OF tp wf q sib wq])
  have key: "range' (snd e) = fst e" if "e \<in> set (children t)" for e
    using wf that by (simp add: wf_map_def)
  show "Some c \<in> set (find_nodes q t) \<longleftrightarrow>
      c \<in> set (values_tm (children t)) \<and> (intersects (range' c) q \<or> inside (range' c) q)" for c
  proof
    assume "Some c \<in> set (find_nodes q t)"
    then obtain e where e: "e \<in> set (children t)" and m: "matches q (fst e)" and c: "c = snd e"
      unfolding s by auto
    show "c \<in> set (values_tm (children t)) \<and> (intersects (range' c) q \<or> inside (range' c) q)"
      using e m key [OF e] by (auto simp: c values_tm_def matches_def)
  next
    assume a: "c \<in> set (values_tm (children t)) \<and> (intersects (range' c) q \<or> inside (range' c) q)"
    then obtain e where e: "e \<in> set (children t)" and c: "c = snd e"
      by (auto simp: values_tm_def)
    have "matches q (fst e)" using a key [OF e] by (simp add: c matches_def)
    then show "Some c \<in> set (find_nodes q t)"
      unfolding s using e c by blast
  qed
  show "None \<notin> set (find_nodes q t)"
    unfolding s by blast
  show "distinct (find_nodes q t)"
    by (rule find_nodes_distinct [OF tp wf q])
  show "find_inline q t = find_nodes q t"
    by (rule find_inline_eq)
  show "find_nodes (NumberRange 7 7) siblings_tree = [Some (RangeBinTree ''b'' (NumberRange 6 9) [])]"
    by (simp add: find_nodes_scan children_siblings_tree eval_defs)
qed

lemma well_formed_NumberRange: "well_formed (NumberRange s e) = (s \<le> e)"
  by (simp add: well_formed_def compareNumbers_def)

theorem find_returns_matching_children_witness:
  "total_preorder compareNumbers \<and> wf_map compareNumbers (children siblings_tree) \<and>
   comparator (NumberRange 3 12) = compareNumbers \<and> siblings_ok (children siblings_tree) \<and>
   well_formed (NumberRange 3 12) \<and>
   Some (RangeBinTree ''c'' (NumberRange 10 15) []) \<in> set (find_nodes (NumberRange 3 12) siblings_tree) \<and>
   None \<notin> set (find_nodes (NumberRange 3 12) siblings_tree) \<and>
   distinct (find_nodes (NumberRange 3 12) siblings_tree)"
proof -
  have wq: "well_formed (NumberRange 3 12)"
    by (simp add: well_formed_NumberRange)
  have c: "RangeBinTree ''c'' (NumberRange 10 15) [] \<in> set (values_tm (children siblings_tree))"
    by (simp add: children_siblings_tree values_tm_def)
  have i: "intersects (range' (RangeBinTree ''c'' (NumberRange 10 15) [])) (NumberRange 3 12)"
    by (simp add: intersects_def contains_def compareNumbers_def)
  from find_returns_matching_children [OF total_preorder_compareNumbers wf_siblings_tree _
      siblings_ok_siblings_tree wq] c i
  show ?thesis
    by (simp add: total_preorder_compareNumbers wf_siblings_tree siblings_ok_siblings_tree wq)
qed

text \<open>
  C1 as stated fails for a query whose start lies after its end: with the
  siblings \<open>[0,5]\<close>, \<open>[6,9]\<close>, \<open>[10,15]\<close> and \<open>q = [12,2]\<close> the lower scan meets
  \<open>[10,15]\<close> (a match), stops at \<open>[6,9]\<close>, and never reaches \<open>[0,5]\<close>, which
  contains \<open>q.end\<close> and so intersects \<open>q\<close>.
\<close>

theorem find_misses_child_of_reversed_query:
  "total_preorder compareNumbers \<and> wf_map compareNumbers (children siblings_tree) \<and>
   comparator (NumberRange 12 2) = compareNumbers \<and> siblings_ok (children siblings_tree) \<and>
   RangeBinTree ''a'' (NumberRange 0 5) [] \<in> set (values_tm (children siblings_tree)) \<and>
   intersects (range' (RangeBinTree ''a'' (NumberRange 0 5) [])) (NumberRange 12 2) \<and>
   find_nodes (NumberRange 12 2) siblings_tree = [Some (RangeBinTree ''c'' (NumberRange 10 15) [])] \<and>
   Some (RangeBinTree ''a'' (NumberRange 0 5) []) \<notin> set (find_nodes (NumberRange 12 2) siblings_tree)"
proof -
  have f: "find_nodes (NumberRange 12 2) siblings_tree = [Some (RangeBinTree ''c'' (NumberRange 10 15) [])]"
    by (simp add: find_nodes_def processIntersecting_def children_siblings_tree reverseKeys_def
        entries_def breakFn_def remove_def eval_defs)
  have i: "intersects (range' (RangeBinTree ''a'' (NumberRange 0 5) [])) (NumberRange 12 2)"
    by (simp add: intersects_def contains_def compareNumbers_def)
  have v: "RangeBinTree ''a'' (NumberRange 0 5) [] \<in> set (values_tm (children siblings_tree))"
    by (simp add: children_siblings_tree values_tm_def)
  show ?thesis
    using f i v
    by (simp add: total_preorder_compareNumbers wf_siblings_tree siblings_ok_siblings_tree)
qed

text \<open>
  C3 (as amended): on every node with a well-formed child map,
  \<open>replaceIntersecting(q, v)\<close> twice gives the same node as once.  Its child map
  is what \<open>removeIntersecting\<close> keeps below and above \<open>q\<close> with the one new child
  \<open>q \<mapsto> v\<close> between them, so exactly one entry is keyed at \<open>q\<close>.  What is removed
  are the runs of matching children next to \<open>q\<close> in key order; under the sibling
  invariant and for \<open>q.start \<le> q.end\<close> these are all children whose interval
  intersects \<open>q\<close> or lies inside it.
\<close>

theorem replaceIntersecting_idempotent:
  fixes t :: "('t, 'r) RangeBinTree"
  assumes tp: "total_preorder cmp" and wf: "wf_map cmp (children t)" and q: "comparator q = cmp"
  shows "replaceIntersecting q v (replaceIntersecting q v t) = replaceIntersecting q v t \<and>
         children (replaceIntersecting q v t) =
           kept_lower q (children t) @ (q, newRangeBinTree q v) # kept_higher q (children t) \<and>
         filter (\<lambda>e. compare (fst e) q = 0) (children (replaceIntersecting q v t))
           = [(q, newRangeBinTree q v)] \<and>
         (siblings_ok (children t) \<and> well_formed q \<longrightarrow>
            kept_lower q (children t) @ kept_higher q (children t)
              = filter (\<lambda>e. \<not> (intersects (fst e) q \<or> inside (fst e) q)) (children t))"
proof (intro conjI impI)
  let ?lo' = "kept_lower q (children t)" and ?hi' = "kept_higher q (children t)"
  let ?c = "newRangeBinTree q v :: ('t, 'r) RangeBinTree"
  note kept = removeIntersecting_kept [OF tp wf q]
  note rep = replaceIntersecting_children [OF tp wf q, of v]
  have "replaceIntersecting q v (replaceIntersecting q v t)
      = addChild q v (removeIntersecting q (replaceIntersecting q v t))"
    by (simp add: replaceIntersecting_def)
  also have "\<dots> = addChild q v (removeIntersecting q t)"
    by (simp only: removeIntersecting_replaceIntersecting [OF tp wf q])
  finally show "replaceIntersecting q v (replaceIntersecting q v t) = replaceIntersecting q v t"
    by (simp add: replaceIntersecting_def)
  show "children (replaceIntersecting q v t) = ?lo' @ (q, ?c) # ?hi'"
    by (rule rep(1))
  have qq: "compare q q = 0" using compare_refl [of q] tp q by simp
  have "filter (\<lambda>e. compare (fst e) q = 0) ?lo' = []"
    using kept(2) by (fastforce simp: filter_empty_conv)
  moreover have "filter (\<lambda>e. compare (fst e) q = 0) ?hi' = []"
    using kept(3) by (fastforce simp: filter_empty_conv)
  ultimately show "filter (\<lambda>e. compare (fst e) q = 0) (children (replaceIntersecting q v t))
      = [(q, ?c)]"
    using qq by (simp add: rep(1))
next
  assume a: "siblings_ok (children t) \<and> well_formed q"
  have "children (removeIntersecting q t) = filter (\<lambda>e. \<not> matches q (fst e)) (children t)"
    using removeIntersecting_all [OF tp wf q] a by blast
  then show "kept_lower q (children t) @ kept_higher q (children t)
      = filter (\<lambda>e. \<not> (intersects (fst e) q \<or> inside (fst e) q)) (children t)"
    by (simp add: removeIntersecting_wf [OF tp wf q] matches_def)
qed

theorem replaceIntersecting_idempotent_witness:
  "total_preorder compareNumbers \<and> wf_map compareNumbers (children siblings_tree) \<and>
   comparator (NumberRange 3 8) = compareNumbers \<and> siblings_ok (children siblings_tree) \<and>
   well_formed (NumberRange 3 8) \<and>
   replaceIntersecting (NumberRange 3 8) ''new'' (replaceIntersecting (NumberRange 3 8) ''new'' siblings_tree)
     = replaceIntersecting (NumberRange 3 8) ''new'' siblings_tree \<and>
   summary (replaceIntersecting (NumberRange 3 8) ''new'' siblings_tree)
     = [(3, 8, ''new''), (10, 15, ''c'')]"
proof -
  have wq: "well_formed (NumberRange 3 8)"
    by (simp add: well_formed_NumberRange)
  note inst = replaceIntersecting_idempotent [OF total_preorder_compareNumbers wf_siblings_tree,
      of "NumberRange 3 8" "''new''"]
  have k: "kept_lower (NumberRange 3 8) (children siblings_tree) @
           kept_higher (NumberRange 3 8) (children siblings_tree)
         = [(NumberRange 10 15, RangeBinTree ''c'' (NumberRange 10 15) [])]"
    using inst siblings_ok_siblings_tree wq
    by (simp add: children_siblings_tree intersects_def contains_def inside_def compareNumbers_def)
  have "children (replaceIntersecting (NumberRange 3 8) ''new'' siblings_tree)
      = set_tm compare (NumberRange 3 8) (newRangeBinTree (NumberRange 3 8) ''new'')
          (kept_lower (NumberRange 3 8) (children siblings_tree) @
           kept_higher (NumberRange 3 8) (children siblings_tree))"
    by (simp add: replaceIntersecting_def addChild_children
        removeIntersecting_wf [OF total_preorder_compareNumbers wf_siblings_tree])
  then have "summary (replaceIntersecting (NumberRange 3 8) ''new'' siblings_tree)
      = [(3, 8, ''new''), (10, 15, ''c'')]"
    by (simp add: k summary_def compare_def compareNumbers_def newRangeBinTree_def)
  then show ?thesis
    using inst
    by (simp add: total_preorder_compareNumbers wf_siblings_tree siblings_ok_siblings_tree wq)
qed

text \<open>
  C3 as stated fails when siblings overlap: with the children \<open>[0,10]\<close> and
  \<open>[2,3]\<close> and \<open>q = [5,5]\<close> the lower scan stops at \<open>[2,3]\<close> at once, and the
  child \<open>[0,10]\<close>, which intersects \<open>q\<close>, is still there after
  \<open>replaceIntersecting\<close>.
\<close>

theorem replaceIntersecting_keeps_overlapping_child:
  "total_preorder compareNumbers \<and> wf_map compareNumbers (children overlapping_tree) \<and>
   comparator (NumberRange 5 5) = compareNumbers \<and>
   summary overlapping_tree = [(0, 10, ''a''), (2, 3, ''b'')] \<and>
   intersects (NumberRange 0 10) (NumberRange 5 5) \<and>
   summary (replaceIntersecting (NumberRange 5 5) ''v'' overlapping_tree)
     = [(0, 10, ''a''), (2, 3, ''b''), (5, 5, ''v'')]"
proof -
  have "summary (replaceIntersecting (NumberRange 5 5) ''v'' overlapping_tree)
     = [(0, 10, ''a''), (2, 3, ''b''), (5, 5, ''v'')]"
    by (simp add: summary_def replaceIntersecting_def removeIntersecting_def addChild_def
        addChildNode_def with_children_def
        processIntersecting_def children_overlapping_tree reverseKeys_def
        entries_def breakFn_def remove_def delete_tm_def eval_defs)
  moreover have "intersects (NumberRange 0 10) (NumberRange 5 5)"
    by (simp add: intersects_def contains_def compareNumbers_def)
  moreover have "summary overlapping_tree = [(0, 10, ''a''), (2, 3, ''b'')]"
    by (simp add: summary_def children_overlapping_tree)
  ultimately show ?thesis
    by (simp add: total_preorder_compareNumbers wf_overlapping_tree)
qed

section \<open>The order of the sequence that find returns\<close>

lemma sorted_wrt_takeWhile: "sorted_wrt R xs \<Longrightarrow> sorted_wrt R (takeWhile P xs)"
  by (induction xs) (auto dest: set_takeWhileD)

lemma lower_run_props:
  "e \<in> set (lower_run q m) \<Longrightarrow> e \<in> set m \<and> compare (fst e) q \<le> 0 \<and> matches q (fst e)"
  unfolding lower_run_def splitLower_def by (auto dest: set_takeWhileD)

lemma higher_run_props:
  "e \<in> set (higher_run q m) \<Longrightarrow> e \<in> set m \<and> 0 < compare (fst e) q \<and> matches q (fst e)"
  unfolding higher_run_def splitHigher_def by (auto dest: set_takeWhileD)

lemma split_sorted:
  assumes tp: "total_preorder cmp" and wf: "wf_map cmp m" and q: "comparator q = cmp"
  shows "sorted_wrt (\<lambda>a b. compare (fst a) (fst b) < 0) (splitLower compare q m)"
    and "sorted_wrt (\<lambda>a b. compare (fst a) (fst b) < 0) (splitHigher compare q False m)"
    and "\<forall>l \<in> set (splitLower compare q m). \<forall>h \<in> set (splitHigher compare q False m).
           compare (fst l) (fst h) < 0"
proof -
  have "wf_map cmp (splitLower compare q m @ splitHigher compare q False m)"
    using split_append [OF tp q wf] wf by simp
  then have a: "wf_map cmp (splitLower compare q m)" and b: "wf_map cmp (splitHigher compare q False m)"
    and c: "\<forall>l \<in> set (splitLower compare q m). \<forall>h \<in> set (splitHigher compare q False m).
           compare (fst l) (fst h) < 0"
    by (simp_all add: wf_map_append)
  show "sorted_wrt (\<lambda>a b. compare (fst a) (fst b) < 0) (splitLower compare q m)"
    using a by (simp add: wf_map_def sorted_wrt_map)
  show "sorted_wrt (\<lambda>a b. compare (fst a) (fst b) < 0) (splitHigher compare q False m)"
    using b by (simp add: wf_map_def sorted_wrt_map)
  show "\<forall>l \<in> set (splitLower compare q m). \<forall>h \<in> set (splitHigher compare q False m).
           compare (fst l) (fst h) < 0"
    by (rule c)
qed

lemma lower_run_desc:
  assumes tp: "total_preorder cmp" and wf: "wf_map cmp m" and q: "comparator q = cmp"
  shows "sorted_wrt (\<lambda>a b. compare (fst b) (fst a) < 0) (lower_run q m)"
proof -
  have "sorted_wrt (\<lambda>a b. compare (fst b) (fst a) < 0) (rev (splitLower compare q m))"
    using split_sorted(1) [OF tp wf q] by (simp add: sorted_wrt_rev)
  then show ?thesis
    unfolding lower_run_def by (rule sorted_wrt_takeWhile)
qed

lemma higher_run_asc:
  assumes tp: "total_preorder cmp" and wf: "wf_map cmp m" and q: "comparator q = cmp"
  shows "sorted_wrt (\<lambda>a b. compare (fst a) (fst b) < 0) (higher_run q m)"
  unfolding higher_run_def
  using split_sorted(2) [OF tp wf q] by (rule sorted_wrt_takeWhile)

lemma runs_cross:
  assumes tp: "total_preorder cmp" and wf: "wf_map cmp m" and q: "comparator q = cmp"
    and l: "l \<in> set (lower_run q m)" and h: "h \<in> set (higher_run q m)"
  shows "compare (fst l) (fst h) < 0"
proof -
  have "l \<in> set (splitLower compare q m)"
    using l unfolding lower_run_def by (auto dest: set_takeWhileD)
  moreover have "h \<in> set (splitHigher compare q False m)"
    using h unfolding higher_run_def by (auto dest: set_takeWhileD)
  ultimately show ?thesis
    using split_sorted(3) [OF tp wf q] by blast
qed

text \<open>The first entry of the lower scan carries the greatest key not above the query.\<close>

lemma lower_run_hd_greatest:
  assumes tp: "total_preorder cmp" and wf: "wf_map cmp m" and q: "comparator q = cmp"
    and ne: "lower_run q m \<noteq> []" and e: "e \<in> set m" and eq: "compare (fst e) q \<le> 0"
  shows "compare (fst e) (fst (hd (lower_run q m))) \<le> 0"
proof -
  let ?lo = "splitLower compare q m"
  from ne have lo: "rev ?lo \<noteq> []" by (auto simp: lower_run_def)
  have hd: "hd (lower_run q m) = hd (rev ?lo)"
    using ne unfolding lower_run_def by (cases "rev ?lo") (auto split: if_splits)
  obtain g rest where r: "rev ?lo = g # rest" using lo by (cases "rev ?lo") auto
  then have lo': "?lo = rev rest @ [g]" by (metis rev.simps(2) rev_rev_ident)
  have elo: "e \<in> set ?lo" using e eq by (simp add: splitLower_def)
  have srt: "sorted_wrt (\<lambda>a b. compare (fst a) (fst b) < 0) (rev rest @ [g])"
    using split_sorted(1) [OF tp wf q] lo' by simp
  have ce: "comparator (fst e) = cmp" using wf_map_keyD [OF wf e] .
  have "compare (fst e) (fst g) \<le> 0"
  proof (cases "e = g")
    case True
    then show ?thesis using compare_refl [of "fst e"] tp ce by simp
  next
    case False
    then have "e \<in> set (rev rest)" using elo lo' by simp
    then have "compare (fst e) (fst g) < 0" using srt by (simp add: sorted_wrt_append)
    then show ?thesis by simp
  qed
  then show ?thesis by (simp add: hd r)
qed

lemma runs_ascending_iff:
  assumes tp: "total_preorder cmp" and wf: "wf_map cmp m" and q: "comparator q = cmp"
  shows "sorted_wrt (\<lambda>a b. compare (fst a) (fst b) < 0) (lower_run q m @ higher_run q m)
           \<longleftrightarrow> length (lower_run q m) \<le> 1"
proof
  assume asc: "sorted_wrt (\<lambda>a b. compare (fst a) (fst b) < 0) (lower_run q m @ higher_run q m)"
  show "length (lower_run q m) \<le> 1"
  proof (rule ccontr)
    assume "\<not> length (lower_run q m) \<le> 1"
    then obtain l1 l2 rest where lr: "lower_run q m = l1 # l2 # rest"
      by (cases "lower_run q m"; cases "tl (lower_run q m)") auto
    have up: "compare (fst l1) (fst l2) < 0"
      using asc by (simp add: lr)
    have down: "compare (fst l2) (fst l1) < 0"
      using lower_run_desc [OF tp wf q] by (simp add: lr)
    have c1: "comparator (fst l1) = cmp" and c2: "comparator (fst l2) = cmp"
      using lower_run_props [of l1 q m] lower_run_props [of l2 q m] wf_map_keyD [OF wf]
      by (simp_all add: lr)
    show False
      using compare_flip [OF tp c1 c2] up down by simp
  qed
next
  assume le: "length (lower_run q m) \<le> 1"
  have hi: "sorted_wrt (\<lambda>a b. compare (fst a) (fst b) < 0) (higher_run q m)"
    by (rule higher_run_asc [OF tp wf q])
  show "sorted_wrt (\<lambda>a b. compare (fst a) (fst b) < 0) (lower_run q m @ higher_run q m)"
  proof (cases "lower_run q m")
    case Nil
    then show ?thesis using hi by simp
  next
    case (Cons l rest)
    with le have lr: "lower_run q m = [l]" by simp
    have "\<forall>h \<in> set (higher_run q m). compare (fst l) (fst h) < 0"
      using runs_cross [OF tp wf q, of l] lr by simp
    then show ?thesis using hi by (simp add: lr)
  qed
qed

lemma runs_all:
  assumes tp: "total_preorder cmp" and wf: "wf_map cmp m" and sib: "siblings_ok m"
    and q: "comparator q = cmp" and wq: "well_formed q"
  shows "set (lower_run q m) = {e \<in> set m. compare (fst e) q \<le> 0 \<and> matches q (fst e)}"
    and "set (higher_run q m) = {e \<in> set m. 0 < compare (fst e) q \<and> matches q (fst e)}"
  using runs_are_filters [OF tp wf sib q wq]
  by (auto simp: splitLower_def splitHigher_def)

text \<open>
  C9 (as amended): on every node with a well-formed child map, \<open>find(q)\<close> returns
  first the run of matching children met going down from the greatest key
  \<open>\<le> q\<close>, in descending key order, then the run of matching children met going up
  from the least key \<open>> q\<close>, in ascending key order.  Under the sibling invariant
  and for \<open>q.start \<le> q.end\<close> the two runs are all matching children on their side.
  When the first run is not empty, the first element returned is the child with
  the greatest key not above \<open>q\<close>.  The returned sequence ascends in key order
  exactly when the first run has at most one element.
\<close>

theorem find_order:
  assumes tp: "total_preorder cmp" and wf: "wf_map cmp (children t)" and q: "comparator q = cmp"
  shows "find_nodes q t =
           map (\<lambda>e. Some (snd e)) (lower_run q (children t) @ higher_run q (children t)) \<and>
         (\<forall>e \<in> set (lower_run q (children t)).
            e \<in> set (children t) \<and> compare (fst e) q \<le> 0 \<and> matches q (fst e)) \<and>
         sorted_wrt (\<lambda>a b. compare (fst b) (fst a) < 0) (lower_run q (children t)) \<and>
         (\<forall>e \<in> set (higher_run q (children t)).
            e \<in> set (children t) \<and> 0 < compare (fst e) q \<and> matches q (fst e)) \<and>
         sorted_wrt (\<lambda>a b. compare (fst a) (fst b) < 0) (higher_run q (children t)) \<and>
         (siblings_ok (children t) \<and> well_formed q \<longrightarrow>
            set (lower_run q (children t))
              = {e \<in> set (children t). compare (fst e) q \<le> 0 \<and> matches q (fst e)} \<and>
            set (higher_run q (children t))
              = {e \<in> set (children t). 0 < compare (fst e) q \<and> matches q (fst e)}) \<and>
         (lower_run q (children t) \<noteq> [] \<longrightarrow>
            hd (find_nodes q t) = Some (snd (hd (lower_run q (children t)))) \<and>
            (\<forall>e \<in> set (children t). compare (fst e) q \<le> 0 \<longrightarrow>
               compare (fst e) (fst (hd (lower_run q (children t)))) \<le> 0)) \<and>
         (sorted_wrt (\<lambda>a b. compare (fst a) (fst b) < 0)
            (lower_run q (children t) @ higher_run q (children t))
            \<longleftrightarrow> length (lower_run q (children t)) \<le> 1)"
proof (intro conjI impI ballI)
  let ?m = "children t"
  show f: "find_nodes q t = map (\<lambda>e. Some (snd e)) (lower_run q ?m @ higher_run q ?m)"
    by (rule find_nodes_wf [OF tp wf])
  show "e \<in> set ?m" "compare (fst e) q \<le> 0" "matches q (fst e)"
    if "e \<in> set (lower_run q ?m)" for e
    using lower_run_props [OF that] by simp_all
  show "e \<in> set ?m" "0 < compare (fst e) q" "matches q (fst e)"
    if "e \<in> set (higher_run q ?m)" for e
    using higher_run_props [OF that] by simp_all
  show "sorted_wrt (\<lambda>a b. compare (fst b) (fst a) < 0) (lower_run q ?m)"
    by (rule lower_run_desc [OF tp wf q])
  show "sorted_wrt (\<lambda>a b. compare (fst a) (fst b) < 0) (higher_run q ?m)"
    by (rule higher_run_asc [OF tp wf q])
  show "set (lower_run q ?m) = {e \<in> set ?m. compare (fst e) q \<le> 0 \<and> matches q (fst e)}"
    if "siblings_ok ?m \<and> well_formed q"
    using runs_all(1) [OF tp wf _ q] that by blast
  show "set (higher_run q ?m) = {e \<in> set ?m. 0 < compare (fst e) q \<and> matches q (fst e)}"
    if "siblings_ok ?m \<and> well_formed q"
    using runs_all(2) [OF tp wf _ q] that by blast
  show "hd (find_nodes q t) = Some (snd (hd (lower_run q ?m)))" if "lower_run q ?m \<noteq> []"
    using that by (simp add: f hd_append hd_map)
  show "compare (fst e) (fst (hd (lower_run q ?m))) \<le> 0"
    if "lower_run q ?m \<noteq> []" "e \<in> set ?m" "compare (fst e) q \<le> 0" for e
    using lower_run_hd_greatest [OF tp wf q that] .
  show "sorted_wrt (\<lambda>a b. compare (fst a) (fst b) < 0) (lower_run q ?m @ higher_run q ?m)
      \<longleftrightarrow> length (lower_run q ?m) \<le> 1"
    by (rule runs_ascending_iff [OF tp wf q])
qed

lemma runs_siblings_tree_7_12:
  "lower_run (NumberRange 7 12) (children siblings_tree)
     = [(NumberRange 6 9, RangeBinTree ''b'' (NumberRange 6 9) [])]"
  "higher_run (NumberRange 7 12) (children siblings_tree)
     = [(NumberRange 10 15, RangeBinTree ''c'' (NumberRange 10 15) [])]"
  by (simp_all add: children_siblings_tree eval_defs)

theorem find_order_witness:
  "total_preorder compareNumbers \<and> wf_map compareNumbers (children siblings_tree) \<and>
   comparator (NumberRange 7 12) = compareNumbers \<and>
   siblings_ok (children siblings_tree) \<and> well_formed (NumberRange 7 12) \<and>
   lower_run (NumberRange 7 12) (children siblings_tree) \<noteq> [] \<and>
   RangeBinTree ''a'' (NumberRange 0 5) [] \<in> set (values_tm (children siblings_tree)) \<and>
   compare (NumberRange 0 5) (NumberRange 7 12) \<le> 0 \<and>
   find_nodes (NumberRange 7 12) siblings_tree
     = [Some (RangeBinTree ''b'' (NumberRange 6 9) []), Some (RangeBinTree ''c'' (NumberRange 10 15) [])] \<and>
   hd (find_nodes (NumberRange 7 12) siblings_tree) = Some (RangeBinTree ''b'' (NumberRange 6 9) []) \<and>
   compare (NumberRange 0 5) (NumberRange 6 9) \<le> 0"
proof -
  let ?q = "NumberRange 7 12" and ?m = "children siblings_tree"
  have cq: "comparator ?q = compareNumbers" by simp
  note inst = find_order [OF total_preorder_compareNumbers wf_siblings_tree cq]
  from inst have f0: "find_nodes ?q siblings_tree
      = map (\<lambda>e. Some (snd e)) (lower_run ?q ?m @ higher_run ?q ?m)"
    by (rule conjunct1)
  from inst have h0: "lower_run ?q ?m \<noteq> [] \<longrightarrow>
      hd (find_nodes ?q siblings_tree) = Some (snd (hd (lower_run ?q ?m))) \<and>
      (\<forall>e \<in> set ?m. compare (fst e) ?q \<le> 0 \<longrightarrow> compare (fst e) (fst (hd (lower_run ?q ?m))) \<le> 0)"
    by (elim conjE) assumption
  have wq: "well_formed ?q" by (simp add: well_formed_NumberRange)
  have a: "(NumberRange 0 5, RangeBinTree ''a'' (NumberRange 0 5) []) \<in> set ?m"
    by (simp add: children_siblings_tree)
  have aq: "compare (NumberRange 0 5) ?q \<le> 0"
    by (simp add: compare_def compareNumbers_def)
  have ne: "lower_run ?q ?m \<noteq> []"
    by (simp add: runs_siblings_tree_7_12)
  have f: "find_nodes ?q siblings_tree
     = [Some (RangeBinTree ''b'' (NumberRange 6 9) []), Some (RangeBinTree ''c'' (NumberRange 10 15) [])]"
    by (simp add: f0 runs_siblings_tree_7_12)
  from h0 ne have h1: "hd (find_nodes ?q siblings_tree) = Some (snd (hd (lower_run ?q ?m)))"
    and g1: "\<forall>e \<in> set ?m. compare (fst e) ?q \<le> 0 \<longrightarrow> compare (fst e) (fst (hd (lower_run ?q ?m))) \<le> 0"
    by blast+
  have h: "hd (find_nodes ?q siblings_tree) = Some (RangeBinTree ''b'' (NumberRange 6 9) [])"
    using h1 by (simp add: runs_siblings_tree_7_12)
  have "compare (fst (NumberRange 0 5, RangeBinTree ''a'' (NumberRange 0 5) []))
          (fst (hd (lower_run ?q ?m))) \<le> 0"
    using g1 a aq by (metis fst_conv)
  then have g: "compare (NumberRange 0 5) (NumberRange 6 9) \<le> 0"
    by (simp add: runs_siblings_tree_7_12)
  have v: "RangeBinTree ''a'' (NumberRange 0 5) [] \<in> set (values_tm ?m)"
    by (simp add: children_siblings_tree values_tm_def)
  show ?thesis
    using wq aq ne f h g v
    by (simp add: total_preorder_compareNumbers wf_siblings_tree siblings_ok_siblings_tree)
qed

text \<open>
  C9 as stated fails: with the siblings \<open>[0,5]\<close>, \<open>[6,9]\<close>, \<open>[10,15]\<close> and
  \<open>q = [7,12]\<close> there is a match on either side of the split point (\<open>[6,9]\<close>
  below, \<open>[10,15]\<close> above), and the returned sequence is in ascending key order.
\<close>

theorem find_ascending_with_matches_on_both_sides:
  "find_nodes (NumberRange 7 12) siblings_tree
     = [Some (RangeBinTree ''b'' (NumberRange 6 9) []), Some (RangeBinTree ''c'' (NumberRange 10 15) [])] \<and>
   compare (NumberRange 6 9) (NumberRange 7 12) \<le> 0 \<and>
   intersects (NumberRange 6 9) (NumberRange 7 12) \<and>
   0 < compare (NumberRange 10 15) (NumberRange 7 12) \<and>
   intersects (NumberRange 10 15) (NumberRange 7 12) \<and>
   compare (NumberRange 6 9) (NumberRange 10 15) < 0"
proof -
  have "find_nodes (NumberRange 7 12) siblings_tree
     = [Some (RangeBinTree ''b'' (NumberRange 6 9) []), Some (RangeBinTree ''c'' (NumberRange 10 15) [])]"
    by (simp add: find_nodes_def processIntersecting_def children_siblings_tree reverseKeys_def
        entries_def breakFn_def eval_defs)
  then show ?thesis
    by (simp add: compare_def intersects_def contains_def compareNumbers_def)
qed

section \<open>Properties of the diagnostics batch update\<close>




lemma VSCodeRange_simps [simp]:
  "start (VSCodeRange s e) = s" "end' (VSCodeRange s e) = e"
  "comparator (VSCodeRange s e) = positionComparator"
  by (simp_all add: VSCodeRange_def newRange_def)









lemma resolveRange_cases:
  "resolveRange g f = (if location_line f < 1 then Inl IllegalArgument else Inr (resolvedRange g f))"
  by (simp add: resolvedRange_def resolveRange_def Let_def split: option.splits)




lemma resolveAll_error: "resolveAll g results = Inl e \<Longrightarrow> e = IllegalArgument"
  by (induction results) (auto simp: resolveRange_cases split: if_splits sum.splits)










lemma range_finding_child [simp]: "range' (finding_child r result) = r"
  by (simp add: finding_child_def newRangeBinTree_def)

















lemma diag_summary_Cons:
  "diag_summary (RangeBinTree n r ((VSCodeRange (newPosition l1 c1) (newPosition l2 c2), c) # m))
     = ((l1, c1), (l2, c2), message (node c)) # diag_summary (RangeBinTree n r m)"
  "diag_summary (RangeBinTree n r []) = []"
  by (simp_all add: diag_summary_def newPosition_def)


lemma report_simps [simp]:
  "location_line (report ln s d) = ln" "location_snippet (report ln s d) = s"
  "description (report ln s d) = d"
  by (simp_all add: report_def)










lemma posCmp [simp]:
  "positionComparator (newPosition l1 c1) (newPosition l2 c2) = (if l1 \<noteq> l2 then l1 - l2 else c1 - c2)"
  by (simp add: positionComparator_def newPosition_def)







lemma message_finding_child [simp]:
  "message (node (finding_child r (report ln s d))) = d"
  by (simp add: finding_child_def newRangeBinTree_def newDiagnostic_def report_def)















section \<open>Properties of the enclosing-block lookup\<close>

























end
